theory Spec2Isabelle
  imports Main "HOL-Library.Word" "HOL-Library.Finite_Map"
begin

section \<open>BytePS global state: a shallow embedding of \<open>byteps/common/global.cc\<close>\<close>

text \<open>
  Machine types follow the LP64 data model of the CUDA host platforms the file is built
  for: \<open>int\<close> and \<open>unsigned int\<close>/\<open>uint32_t\<close> are 32 bits wide, \<open>size_t\<close> and
  \<open>ps::Key\<close> are 64 bits wide.  Unsigned arithmetic wraps around; a conversion to a
  narrower integer keeps the low bits; a conversion of an \<open>int\<close> to \<open>size_t\<close> extends
  the sign.  Every function is modelled for one thread at a time: the mutexes of the
  source serialise the calls, and a call is one atomic step of the model.
\<close>

type_synonym uint32_t = "32 word"
type_synonym c_int = "32 word"  \<comment> \<open>read with \<open>sint\<close>\<close>
type_synonym size_t = "64 word"
type_synonym ps_Key = "64 word"

text \<open>
  Outcomes that are not a normal return.  \<open>CheckFailed\<close> is a failed \<open>BPS_CHECK_*\<close>
  and \<open>CudaFailed\<close> a failed \<open>CUDA_CALL\<close>: both macros are fatal, the call does not
  return and leaves no state behind.  \<open>Undefined\<close> marks an execution for which C++
  defines no behaviour and the compiled code has no fixed result either (an index out
  of range, \<open>front()\<close> of an empty container, a number \<open>atoi\<close> cannot represent).
\<close>

datatype error = CheckFailed | CudaFailed | Undefined

subsection \<open>The scheduled queue\<close>

text \<open>
  The queue is its container \<open>_sq\<close>, filled at the back and emptied at the front.  The
  counter \<open>_finished\<close> is written by \<open>reportFinish\<close> alone and read by no function, and
  is left out.
\<close>

record 'e BytePSScheduledQueue =
  sq :: "'e list"

definition addTask :: "'e BytePSScheduledQueue \<Rightarrow> 'e \<Rightarrow> 'e BytePSScheduledQueue" where
  "addTask q entry = q\<lparr>sq := sq q @ [entry]\<rparr>"

definition getTask :: "'e BytePSScheduledQueue \<Rightarrow> error + ('e \<times> 'e BytePSScheduledQueue)" where
  "getTask q = (case sq q of
      [] \<Rightarrow> Inl Undefined
    | front # rest \<Rightarrow> Inr (front, q\<lparr>sq := rest\<rparr>))"

definition peekTask :: "'e BytePSScheduledQueue \<Rightarrow> error + ('e \<times> 'e BytePSScheduledQueue)" where
  "peekTask q = (case sq q of
      [] \<Rightarrow> Inl Undefined
    | front # rest \<Rightarrow> Inr (front, q))"

definition pendingSize :: "'e BytePSScheduledQueue \<Rightarrow> uint32_t" where
  "pendingSize q = word_of_nat (length (sq q))"

text \<open>Sequential composition of calls: \<open>K\<close> times \<open>addTask\<close>, \<open>J\<close> times \<open>getTask\<close>.\<close>

fun addTasks :: "'e BytePSScheduledQueue \<Rightarrow> 'e list \<Rightarrow> 'e BytePSScheduledQueue" where
  "addTasks q [] = q"
| "addTasks q (e # es) = addTasks (addTask q e) es"

fun getTasks :: "nat \<Rightarrow> 'e BytePSScheduledQueue \<Rightarrow> error + ('e list \<times> 'e BytePSScheduledQueue)" where
  "getTasks 0 q = Inr ([], q)"
| "getTasks (Suc j) q = (case getTask q of
      Inl err \<Rightarrow> Inl err
    | Inr (front, q') \<Rightarrow> (case getTasks j q' of
          Inl err \<Rightarrow> Inl err
        | Inr (got, q'') \<Rightarrow> Inr (front # got, q'')))"

subsection \<open>Tensor contexts and the global state\<close>

text \<open>
  Modelled from the spec: the declarations of \<open>BPSContext\<close>, \<open>PSKV\<close>, \<open>DataType\<close> and
  \<open>CPU_DEVICE_ID\<close>, which are in headers outside the source at hand.  The spec gives a
  tensor context its key list, its staging buffer and the buffer length, a key
  assignment its wire key and its size, and the data types their widths of 1, 2, 4 and
  8 bytes; the names of the fields and enumerators are the ones \<open>global.cc\<close> uses.

  \<open>operator[]\<close> of the map value-initialises a new entry: an empty key list, a null
  buffer, length 0.  The fields \<open>lens\<close> and \<open>size\<close> of a \<open>PSKV\<close> hold \<open>int\<close>s (the
  source converts \<open>size\<close> back with \<open>static_cast<size_t>\<close>).  \<open>CPU_DEVICE_ID\<close> is the
  device number of a tensor in host memory; nothing below depends on its value.
\<close>

record BPSContext =
  key_list :: "ps_Key list"
  cpubuff :: "nat option"
  buff_len :: size_t

definition default_BPSContext :: BPSContext where
  "default_BPSContext = \<lparr>key_list = [], cpubuff = None, buff_len = 0\<rparr>"

record PSKV =
  keys :: "ps_Key list"
  lens :: "c_int list"
  size :: c_int

definition default_PSKV :: PSKV where
  "default_PSKV = \<lparr>keys = [], lens = [], size = 0\<rparr>"

datatype DataType =
    BYTEPS_FLOAT32 | BYTEPS_FLOAT64 | BYTEPS_FLOAT16 | BYTEPS_UINT8
  | BYTEPS_INT32 | BYTEPS_INT8 | BYTEPS_INT64

definition CPU_DEVICE_ID :: int where
  "CPU_DEVICE_ID = - 1"

record BytePSGlobal =
  initialized :: bool
  partition_bound :: uint32_t
  next_key :: uint32_t
  name_to_cxt :: "(string, BPSContext) fmap"
  ps_kv :: "(c_int, PSKV) fmap"

text \<open>The values the static initialisers give (lines 53, 60, 62, 70, 71).\<close>

definition initial_global :: BytePSGlobal where
  "initial_global = \<lparr>initialized = False, partition_bound = 512000, next_key = 0,
     name_to_cxt = fmempty, ps_kv = fmempty\<rparr>"

subsection \<open>Tensor registration and partitioning\<close>

definition GetContextFromName :: "string \<Rightarrow> BytePSGlobal \<Rightarrow> BPSContext \<times> BytePSGlobal" where
  "GetContextFromName name g = (case fmlookup (name_to_cxt g) name of
      Some cxt \<Rightarrow> (cxt, g)
    | None \<Rightarrow> (default_BPSContext,
        g\<lparr>name_to_cxt := fmupd name default_BPSContext (name_to_cxt g)\<rparr>))"

definition GetTensorCount :: "BytePSGlobal \<Rightarrow> uint32_t" where
  "GetTensorCount g = word_of_nat (fcard (fmdom (name_to_cxt g)))"

fun byte_per_param :: "DataType \<Rightarrow> uint32_t" where
  "byte_per_param BYTEPS_UINT8 = 1"
| "byte_per_param BYTEPS_INT8 = 1"
| "byte_per_param BYTEPS_FLOAT16 = 2"
| "byte_per_param BYTEPS_FLOAT32 = 4"
| "byte_per_param BYTEPS_INT32 = 4"
| "byte_per_param BYTEPS_FLOAT64 = 8"
| "byte_per_param BYTEPS_INT64 = 8"

definition ConvertBoundToBytes :: "DataType \<Rightarrow> uint32_t \<Rightarrow> uint32_t" where
  "ConvertBoundToBytes dtype bound = bound * byte_per_param dtype"

text \<open>
  The loop of lines 214 to 218.  \<open>accumulated\<close> is an \<open>int\<close> (\<open>auto accumulated = 0\<close>):
  it is sign-extended for the comparison and the subtraction, and the sum is cut back to
  32 bits when it is stored.  The loop may run forever, so not returning is \<open>None\<close>.
\<close>

partial_function (option) partition_loop ::
  "size_t \<Rightarrow> uint32_t \<Rightarrow> c_int \<Rightarrow> ps_Key list \<Rightarrow> uint32_t
     \<Rightarrow> (c_int \<times> ps_Key list \<times> uint32_t) option" where
  "partition_loop sz bound accumulated klist nkey =
     (if (scast accumulated :: size_t) < sz
      then partition_loop sz bound
             (ucast ((scast accumulated :: size_t)
                + (if sz - scast accumulated > ucast bound
                   then ucast bound else sz - scast accumulated)))
             (klist @ [ucast nkey])
             (nkey + 1)
      else Some (accumulated, klist, nkey))"

declare partition_loop.simps [code]

text \<open>
  \<open>cudaHostAlloc\<close> is a parameter: it gives the address of the pinned buffer of the
  requested length, or \<open>None\<close> when the allocation fails.  The result \<open>None\<close> of
  \<open>IsTensorInitialized\<close> is a call that never returns.
\<close>

definition IsTensorInitialized ::
  "(size_t \<Rightarrow> nat option) \<Rightarrow> string \<Rightarrow> size_t \<Rightarrow> int \<Rightarrow> DataType \<Rightarrow> BytePSGlobal
     \<Rightarrow> (error + bool \<times> BytePSGlobal) option" where
  "IsTensorInitialized cudaHostAlloc name sz device dtype g =
     (if \<not> 0 < sz then Some (Inl CheckFailed)
      else case fmlookup (name_to_cxt g) name of
        Some cxt \<Rightarrow> Some (Inr (True, g))
      | None \<Rightarrow>
          let bound = (if next_key g = 0
                       then ConvertBoundToBytes dtype (partition_bound g)
                       else partition_bound g)
          in if device \<noteq> CPU_DEVICE_ID \<and> cudaHostAlloc sz = None
             then Some (Inl CudaFailed)
             else
               let cxt = (if device \<noteq> CPU_DEVICE_ID
                          then default_BPSContext\<lparr>cpubuff := cudaHostAlloc sz, buff_len := sz\<rparr>
                          else default_BPSContext)
               in (case partition_loop sz bound 0 (key_list cxt) (next_key g) of
                     None \<Rightarrow> None
                   | Some (accumulated, klist, nkey) \<Rightarrow>
                       Some (Inr (False,
                         g\<lparr>partition_bound := bound, next_key := nkey,
                           name_to_cxt :=
                             fmupd name (cxt\<lparr>key_list := klist\<rparr>) (name_to_cxt g)\<rparr>))))"

text \<open>
  A run of registrations, one call after the other, stopping at the first call that does
  not return normally.  A call that returns \<open>false\<close> has just built the key list of its
  tensor, so that list is what the call issued; the run collects the issued keys in order.
\<close>

definition keys_of :: "BytePSGlobal \<Rightarrow> string \<Rightarrow> ps_Key list" where
  "keys_of g name = (case fmlookup (name_to_cxt g) name of
      None \<Rightarrow> []
    | Some cxt \<Rightarrow> key_list cxt)"

fun register_all ::
  "(size_t \<Rightarrow> nat option) \<Rightarrow> (string \<times> size_t \<times> int \<times> DataType) list \<Rightarrow> BytePSGlobal
     \<Rightarrow> (error + ps_Key list \<times> BytePSGlobal) option" where
  "register_all cudaHostAlloc [] g = Some (Inr ([], g))"
| "register_all cudaHostAlloc ((name, sz, device, dtype) # rest) g =
     (case IsTensorInitialized cudaHostAlloc name sz device dtype g of
        None \<Rightarrow> None
      | Some (Inl err) \<Rightarrow> Some (Inl err)
      | Some (Inr (known, g')) \<Rightarrow>
          (case register_all cudaHostAlloc rest g' of
             None \<Rightarrow> None
           | Some (Inl err) \<Rightarrow> Some (Inl err)
           | Some (Inr (ks, g'')) \<Rightarrow>
               Some (Inr ((if known then [] else keys_of g' name) @ ks, g''))))"

definition run_keys :: "(error + ps_Key list \<times> BytePSGlobal) option \<Rightarrow> ps_Key list" where
  "run_keys r = (case r of Some (Inr (ks, g)) \<Rightarrow> ks | _ \<Rightarrow> [])"

definition run_returned :: "(error + ps_Key list \<times> BytePSGlobal) option \<Rightarrow> bool" where
  "run_returned r = (case r of Some (Inr (ks, g)) \<Rightarrow> True | _ \<Rightarrow> False)"

definition no_device_memory :: "size_t \<Rightarrow> nat option" where
  "no_device_memory sz = None"

text \<open>The state after an 8-byte tensor \<open>w\<close> of 32-bit floats has been registered first.\<close>

definition w_registered :: BytePSGlobal where
  "w_registered = \<lparr>initialized = False, partition_bound = 2048000, next_key = 1,
     name_to_cxt = fmupd ''w'' \<lparr>key_list = [0], cpubuff = None, buff_len = 0\<rparr> fmempty,
     ps_kv = fmempty\<rparr>"

text \<open>
  A run that passes \<open>2 ^ 32\<close> keys: the state \<open>Init\<close> leaves with
  \<open>BYTEPS_PARTITION_BOUND=1\<close>, and three byte tensors of \<open>2 ^ 31 - 1\<close> bytes each.
\<close>

definition byte_partitions :: BytePSGlobal where
  "byte_partitions = \<lparr>initialized = True, partition_bound = 1, next_key = 0,
     name_to_cxt = fmempty, ps_kv = fmempty\<rparr>"

definition large_tensors :: "(string \<times> size_t \<times> int \<times> DataType) list" where
  "large_tensors =
     [(''a'', 2147483647, CPU_DEVICE_ID, BYTEPS_UINT8),
      (''b'', 2147483647, CPU_DEVICE_ID, BYTEPS_UINT8),
      (''c'', 2147483647, CPU_DEVICE_ID, BYTEPS_UINT8)]"

text \<open>
  The keys a counter at \<open>k\<close> hands out in \<open>n\<close> steps, each converted to \<open>ps::Key\<close>, and
  the number of chunks of at most \<open>b\<close> bytes that cover \<open>s\<close> bytes, \<open>ceil (s / b)\<close>.
\<close>

definition issued :: "uint32_t \<Rightarrow> nat \<Rightarrow> ps_Key list" where
  "issued k n = map (\<lambda>i. ucast (k + word_of_nat i)) [0..<n]"

definition chunks :: "nat \<Rightarrow> nat \<Rightarrow> nat" where
  "chunks s b = (s + b - 1) div b"

text \<open>The chunk sizes a key list of length \<open>n\<close> stands for: chunk \<open>i\<close> starts at byte \<open>i * b\<close>.\<close>

definition chunk_sizes :: "nat \<Rightarrow> nat \<Rightarrow> nat \<Rightarrow> nat list" where
  "chunk_sizes s b n = map (\<lambda>i. min b (s - i * b)) [0..<n]"

subsection \<open>Initialisation: the partition bound\<close>

text \<open>
  \<open>atoi\<close> is the C library's: it skips white space, reads an optional sign and the
  decimal digits that follow, and gives 0 when there are none.  A value that does not
  fit an \<open>int\<close> is undefined behaviour.
\<close>

definition isspace :: "char \<Rightarrow> bool" where
  "isspace c = (c \<in> set [CHR '' '', CHR 0x09, CHR 0x0A, CHR 0x0B, CHR 0x0C, CHR 0x0D])"

definition isdigit :: "char \<Rightarrow> bool" where
  "isdigit c = (48 \<le> (of_char c :: nat) \<and> (of_char c :: nat) \<le> 57)"

fun digits :: "string \<Rightarrow> nat \<Rightarrow> nat" where
  "digits [] acc = acc"
| "digits (c # cs) acc = (if isdigit c then digits cs (10 * acc + (of_char c - 48)) else acc)"

definition strtol10 :: "string \<Rightarrow> int" where
  "strtol10 s = (case dropWhile isspace s of
      [] \<Rightarrow> 0
    | c # cs \<Rightarrow>
        if c = CHR ''-'' then - int (digits cs 0)
        else if c = CHR ''+'' then int (digits cs 0)
        else int (digits (c # cs) 0))"

definition atoi :: "string \<Rightarrow> error + c_int" where
  "atoi s = (if - (2 ^ 31) \<le> strtol10 s \<and> strtol10 s < 2 ^ 31
             then Inr (word_of_int (strtol10 s)) else Inl Undefined)"

text \<open>
  \<open>Init\<close>, as far as the state of this model goes: the flag and the partition bound
  (lines 90 and 102).  Its argument is the result of \<open>getenv("BYTEPS_PARTITION_BOUND")\<close>.
  The communicator, the transport, the streams and the queue table are not read by
  any function modelled here.
\<close>

definition Init :: "string option \<Rightarrow> BytePSGlobal \<Rightarrow> error + BytePSGlobal" where
  "Init env g =
     (if initialized g then Inr g
      else case env of
        None \<Rightarrow> Inr (g\<lparr>initialized := True\<rparr>)
      | Some s \<Rightarrow> (case atoi s of
          Inl err \<Rightarrow> Inl err
        | Inr v \<Rightarrow> Inr (g\<lparr>initialized := True, partition_bound := v\<rparr>)))"

text \<open>A text made of decimal digits only, and the number it writes.\<close>

definition decimal :: "string \<Rightarrow> bool" where
  "decimal s = (s \<noteq> [] \<and> list_all isdigit s)"

definition decimal_value :: "string \<Rightarrow> nat" where
  "decimal_value s = foldl (\<lambda>v c. 10 * v + (of_char c - 48)) 0 s"

text \<open>A text that, after its white space, starts with neither a sign nor a digit.\<close>

definition no_number :: "string \<Rightarrow> bool" where
  "no_number s = (case dropWhile isspace s of
      [] \<Rightarrow> True
    | c # cs \<Rightarrow> \<not> isdigit c \<and> c \<noteq> CHR ''-'' \<and> c \<noteq> CHR ''+'')"

definition bound_after :: "error + BytePSGlobal \<Rightarrow> uint32_t option" where
  "bound_after r = (case r of Inl err \<Rightarrow> None | Inr g \<Rightarrow> Some (partition_bound g))"

subsection \<open>Key encoding\<close>

text \<open>
  \<open>%\<close> on \<open>int\<close> truncates towards zero.  \<open>krs\<close> is the result of
  \<open>GetServerKeyRanges()\<close>, one pair of \<open>begin()\<close> and \<open>end()\<close> for each server.
\<close>

definition c_rem :: "int \<Rightarrow> int \<Rightarrow> int" where
  "c_rem a b = sgn a * (\<bar>a\<bar> mod \<bar>b\<bar>)"

definition num_servers :: "(ps_Key \<times> ps_Key) list \<Rightarrow> int" where
  "num_servers krs = sint (word_of_nat (length krs) :: c_int)"

text \<open>Three servers that share the 64-bit key space in equal ranges.\<close>

definition three_servers :: "(ps_Key \<times> ps_Key) list" where
  "three_servers =
     [(0, 6148914691236517205),
      (6148914691236517205, 12297829382473034410),
      (12297829382473034410, 18446744073709551615)]"

text \<open>The server the spec names for a key: \<open>(key * 9973) mod num_servers\<close>, on the integers.\<close>

definition server_of :: "(ps_Key \<times> ps_Key) list \<Rightarrow> c_int \<Rightarrow> nat" where
  "server_of krs key = nat ((sint key * 9973) mod num_servers krs)"

text \<open>
  \<open>EncodeDefaultKey\<close>.  \<open>ps_kv_[key]\<close> gives the stored entry or a new empty one.  For a new
  entry the product \<open>key * 9973\<close> is a product of \<open>int\<close>s: it is the 32-bit product read
  as a signed number, which is what the multiplication instruction of the compiled code
  leaves where the mathematical product does not fit (C++ itself defines nothing there).
  A negative remainder is an index outside \<open>krs\<close>.  The key is sign-extended for the sum
  with \<open>begin()\<close>, and the length is cut to the \<open>int\<close> of \<open>lens\<close> and \<open>size\<close>.
\<close>

definition EncodeDefaultKey ::
  "(ps_Key \<times> ps_Key) list \<Rightarrow> c_int \<Rightarrow> size_t \<Rightarrow> BytePSGlobal \<Rightarrow> error + PSKV \<times> BytePSGlobal" where
  "EncodeDefaultKey krs key len g =
     (let pskv = (case fmlookup (ps_kv g) key of None \<Rightarrow> default_PSKV | Some p \<Rightarrow> p)
      in if keys pskv \<noteq> []
         then (if (scast (size pskv) :: size_t) = len then Inr (pskv, g) else Inl CheckFailed)
         else if \<not> 0 < num_servers krs then Inl CheckFailed
         else
           let server = c_rem (sint (key * 9973)) (num_servers krs)
           in if server < 0 \<or> length krs \<le> nat server then Inl Undefined
              else
                let ps_key = fst (krs ! nat server) + scast key
                in if \<not> ps_key < snd (krs ! nat server) then Inl CheckFailed
                   else
                     let pskv' = pskv\<lparr>keys := keys pskv @ [ps_key],
                                      lens := lens pskv @ [ucast len],
                                      size := ucast len\<rparr>
                     in Inr (pskv', g\<lparr>ps_kv := fmupd key pskv' (ps_kv g)\<rparr>))"

section \<open>Properties\<close>

subsection \<open>Conversions between the integer types\<close>

lemma ucast_scast_int [simp]: "ucast (scast (a :: c_int) :: size_t) = a"
  by (rule bit_word_eqI) (auto simp: bit_simps)

lemma sint_eq_uint_small: "unat (a :: c_int) < 2 ^ 31 \<Longrightarrow> sint a = uint a"
proof -
  assume "unat a < 2 ^ 31"
  then have "int (unat a) < 2 ^ 31" by (simp only: of_nat_less_numeral_power_cancel_iff)
  then have "uint a < 2 ^ 31" by (simp only: uint_nat)
  moreover have "- (2 ^ 31) \<le> uint a"
    by (rule order_trans[OF _ uint_nonnegative]) simp
  ultimately have "signed_take_bit 31 (uint a) = uint a"
    by (simp only: signed_take_bit_int_eq_self)
  then show ?thesis
    by (simp add: sint_uint)
qed

lemma unat_ucast_size_t: "unat (ucast (a :: 32 word) :: size_t) = unat a"
proof -
  have "uint (ucast a :: size_t) = uint a"
    by (rule uint_up_ucast) (simp add: is_up)
  then show ?thesis by (simp only: unat_eq_nat_uint)
qed

lemma unat_scast_small:
  "unat (a :: c_int) < 2 ^ 31 \<Longrightarrow> unat (scast a :: size_t) = unat a"
proof -
  assume "unat a < 2 ^ 31"
  then have "sint a = uint a" by (rule sint_eq_uint_small)
  then have "(scast a :: size_t) = ucast a" by (simp only: scast_eq ucast_eq)
  then show ?thesis by (simp only: unat_ucast_size_t)
qed

lemma unat_ucast_c_int: "unat (x :: size_t) < 2 ^ 32 \<Longrightarrow> unat (ucast x :: c_int) = unat x"
  by (simp add: unsigned_ucast_eq take_bit_nat_eq_self)

lemma scast_ucast_small:
  fixes len :: size_t
  assumes "unat len < 2 ^ 31"
  shows "(scast (ucast len :: c_int) :: size_t) = len"
proof -
  have "(2::nat) ^ 31 < 2 ^ 32" by simp
  with assms have "unat len < 2 ^ 32" by (rule less_trans)
  then have u: "unat (ucast len :: c_int) = unat len" by (rule unat_ucast_c_int)
  with assms have "unat (ucast len :: c_int) < 2 ^ 31" by simp
  then have "unat (scast (ucast len :: c_int) :: size_t) = unat (ucast len :: c_int)"
    by (rule unat_scast_small)
  with u show ?thesis by (simp only: word_unat_eq_iff)
qed

lemma sint_eq_uint_neg:
  fixes a :: c_int
  assumes "2 ^ 31 \<le> unat a"
  shows "sint a = uint a - 2 ^ 32"
proof -
  from assms have "2 ^ 31 \<le> int (unat a)" by (simp only: numeral_power_le_of_nat_cancel_iff)
  then have lo: "2 ^ 31 \<le> uint a" by (simp only: uint_nat)
  have hi: "uint a < 2 ^ 32" using uint_bounded[of a] by simp
  have "take_bit 32 (uint a + 2 ^ 31) = (uint a + 2 ^ 31) mod 2 ^ 32"
    by (rule take_bit_eq_mod)
  also have "\<dots> = (uint a + 2 ^ 31 - 2 ^ 32) mod 2 ^ 32"
    by (rule minus_mod_self2[symmetric])
  also have "\<dots> = uint a + 2 ^ 31 - 2 ^ 32"
    using lo hi by (intro mod_pos_pos_trivial) simp_all
  finally have "signed_take_bit 31 (uint a) = uint a + 2 ^ 31 - 2 ^ 32 - 2 ^ 31"
    by (simp only: signed_take_bit_eq_take_bit_shift) simp
  then show ?thesis by (simp add: sint_uint)
qed

lemma unat_scast_neg:
  fixes a :: c_int
  assumes "2 ^ 31 \<le> unat a"
  shows "unat (scast a :: size_t) = unat a + 18446744069414584320"
proof -
  have hi: "uint a < 2 ^ 32" using uint_bounded[of a] by simp
  have lo: "0 \<le> uint a" by (rule uint_nonnegative)
  have "uint (scast a :: size_t) = (uint a - 2 ^ 32) mod 2 ^ 64"
    by (simp only: scast_eq sint_eq_uint_neg[OF assms] uint_word_of_int) simp
  also have "\<dots> = (uint a - 2 ^ 32 + 2 ^ 64) mod 2 ^ 64"
    by (rule mod_add_self2[symmetric])
  also have "\<dots> = uint a - 2 ^ 32 + 2 ^ 64"
    using lo hi by (intro mod_pos_pos_trivial) simp_all
  finally have "uint (scast a :: size_t) = uint a + 18446744069414584320" by simp
  then have "int (unat (scast a :: size_t)) = int (unat a + 18446744069414584320)"
    by (simp only: uint_nat[symmetric]) simp
  then show ?thesis by (simp only: of_nat_eq_iff)
qed


subsection \<open>Issued keys and chunk counts\<close>

lemma issued_0 [simp]: "issued k 0 = []"
  by (simp add: issued_def)

lemma issued_Suc: "issued k (Suc n) = ucast k # issued (k + 1) n"
  by (simp add: issued_def upt_rec[of 0 "Suc n"] map_Suc_upt[symmetric] add.assoc del: upt_Suc)

lemma issued_1: "issued k (Suc 0) = [ucast k]"
  by (simp add: issued_Suc)

lemma length_issued [simp]: "length (issued k n) = n"
  by (simp add: issued_def)

lemma issued_append: "issued k n @ issued (k + word_of_nat n) m = issued k (n + m)"
proof (induction n arbitrary: k)
  case 0
  then show ?case by simp
next
  case (Suc n)
  have "issued (k + 1) n @ issued (k + 1 + word_of_nat n) m = issued (k + 1) (n + m)"
    by (rule Suc.IH)
  then show ?case by (simp add: issued_Suc add.assoc)
qed

lemma nth_issued: "i < n \<Longrightarrow> issued k n ! i = ucast (k + word_of_nat i)"
  by (simp add: issued_def)

lemma unat_issued:
  assumes "unat k + i < 2 ^ 32"
  shows "unat (ucast (k + word_of_nat i :: uint32_t) :: ps_Key) = unat k + i"
proof -
  from assms have i: "i < 2 ^ 32" by simp
  then have "unat (word_of_nat i :: uint32_t) = i" by (simp add: unat_of_nat)
  with assms have "unat k + unat (word_of_nat i :: uint32_t) < 2 ^ LENGTH(32)" by simp
  then have "unat (k + word_of_nat i) = unat k + unat (word_of_nat i :: uint32_t)"
    by (rule unat_add_lem[THEN iffD1])
  with \<open>unat (word_of_nat i :: uint32_t) = i\<close> show ?thesis
    by (simp only: unat_ucast_size_t)
qed

lemma issued_increasing:
  assumes "unat k + n \<le> 2 ^ 32"
  shows "sorted_wrt (<) (issued k n)"
proof -
  have "issued k n ! i < issued k n ! j" if "i < j" and "j < n" for i j
  proof -
    from that assms have "unat k + i < 2 ^ 32" and "unat k + j < 2 ^ 32" by simp_all
    then have "unat (issued k n ! i) = unat k + i" and "unat (issued k n ! j) = unat k + j"
      using that by (simp_all only: nth_issued[OF that(2)] nth_issued[OF less_trans[OF that]]
          unat_issued)
    with that show ?thesis by (simp only: word_less_nat_alt)
  qed
  then show ?thesis by (simp add: sorted_wrt_iff_nth_less)
qed

lemma chunks_0: "0 < b \<Longrightarrow> chunks 0 b = 0"
  by (simp add: chunks_def)

lemma chunks_pos:
  assumes "0 < b" "0 < d"
  shows "chunks d b = Suc ((d - 1) div b)"
proof -
  from assms have "d + b - 1 = (d - 1) + b" by arith
  then have "chunks d b = ((d - 1) + b) div b" by (simp only: chunks_def)
  also from assms have "\<dots> = (d - 1) div b + 1" by (simp only: div_add_self2) 
  finally show ?thesis by simp
qed

lemma chunks_step:
  assumes "0 < b" "0 < d"
  shows "chunks d b = Suc (chunks (d - min b d) b)"
proof (cases "b < d")
  case True
  then have "d - min b d + b - 1 = d - 1" by arith
  then have "chunks (d - min b d) b = (d - 1) div b" by (simp only: chunks_def)
  with chunks_pos[OF assms] show ?thesis by simp
next
  case False
  then have m: "d - min b d = 0" by arith
  from False assms have "(d - 1) div b = 0" by simp
  with chunks_pos[OF assms] chunks_0[OF assms(1)] show ?thesis by (simp only: m)
qed

lemma chunk_sizes_Suc: "chunk_sizes s b (Suc n) = min b s # chunk_sizes (s - b) b n"
proof -
  have "[0..<Suc n] = 0 # map Suc [0..<n]"
    by (simp add: upt_rec[of 0 "Suc n"] map_Suc_upt del: upt_Suc)
  then have "chunk_sizes s b (Suc n) = min b s # map ((\<lambda>i. min b (s - i * b)) \<circ> Suc) [0..<n]"
    by (simp only: chunk_sizes_def list.map map_map) simp
  moreover have "((\<lambda>i. min b (s - i * b)) \<circ> Suc) = (\<lambda>i. min b (s - b - i * b))"
    by (rule ext) (simp add: diff_diff_left)
  ultimately show ?thesis by (simp only: chunk_sizes_def)
qed

lemma chunk_sizes_2: "chunk_sizes s b 2 = [min b s, min b (s - b)]"
  by (simp add: chunk_sizes_def numeral_2_eq_2)

lemma chunk_sizes_full:
  assumes "n * b \<le> s"
  shows "chunk_sizes s b n = replicate n b"
proof -
  have "min b (s - i * b) = b" if "i \<in> set [0..<n]" for i
  proof -
    from that have "Suc i \<le> n" by simp
    then have "Suc i * b \<le> n * b" by (rule mult_le_mono1)
    with assms have "b + i * b \<le> s" by simp
    then show ?thesis by arith
  qed
  then have "map (\<lambda>i. min b (s - i * b)) [0..<n] = map (\<lambda>i. b) [0..<n]"
    by (intro map_cong refl)
  then show ?thesis by (simp add: chunk_sizes_def map_replicate_const)
qed

lemma chunk_sizes_cover:
  assumes "0 < b"
  shows "sum_list (chunk_sizes s b (chunks s b)) = s
       \<and> list_all (\<lambda>c. 0 < c \<and> c \<le> b) (chunk_sizes s b (chunks s b))"
proof (induction s rule: less_induct)
  case (less s)
  show ?case
  proof (cases "s = 0")
    case True
    with assms show ?thesis by (simp add: chunks_0 chunk_sizes_def)
  next
    case False
    then have pos: "0 < s" by simp
    have d: "s - min b s = s - b" by arith
    from chunks_step[OF assms pos] have n: "chunks s b = Suc (chunks (s - b) b)"
      by (simp only: d)
    from pos assms have "s - b < s" by arith
    note ih = less.IH[OF this]
    have cs: "chunk_sizes s b (chunks s b) = min b s # chunk_sizes (s - b) b (chunks (s - b) b)"
      by (simp only: n chunk_sizes_Suc)
    have "min b s + (s - b) = s" by arith
    with ih[THEN conjunct1] have "sum_list (chunk_sizes s b (chunks s b)) = s"
      by (simp only: cs sum_list.Cons)
    moreover from pos assms have "0 < min b s \<and> min b s \<le> b" by simp
    with ih[THEN conjunct2]
    have "list_all (\<lambda>c. 0 < c \<and> c \<le> b) (chunk_sizes s b (chunks s b))"
      by (simp only: cs list.pred_inject)
    ultimately show ?thesis by (rule conjI)
  qed
qed


subsection \<open>The partitioning loop\<close>

text \<open>
  Whenever the loop returns, it has appended the successive values of the counter to
  the key list, and the accumulator is no longer below the size.
\<close>

lemma partition_loop_trace:
  assumes "partition_loop S B a ks k = Some r"
  shows "\<exists>n a'. r = (a', ks @ issued k n, k + word_of_nat n)
            \<and> \<not> scast a' < S \<and> (scast a < S \<longrightarrow> 0 < n)"
proof (rule partition_loop.raw_induct[where P = "\<lambda>S B a ks k r.
     \<exists>n a'. r = (a', ks @ issued k n, k + word_of_nat n)
            \<and> \<not> scast a' < S \<and> (scast a < S \<longrightarrow> 0 < n)", OF _ assms])
  fix f :: "size_t \<Rightarrow> uint32_t \<Rightarrow> c_int \<Rightarrow> ps_Key list \<Rightarrow> uint32_t
     \<Rightarrow> (c_int \<times> ps_Key list \<times> uint32_t) option"
  fix S :: size_t and B :: uint32_t and a :: c_int and ks :: "ps_Key list" and k :: uint32_t
    and r :: "c_int \<times> ps_Key list \<times> uint32_t"
  let ?a = "ucast ((scast a :: size_t) + (if S - scast a > ucast B then ucast B else S - scast a)) :: c_int"
  assume IH: "\<And>S B a ks k r. f S B a ks k = Some r \<Longrightarrow>
     \<exists>n a'. r = (a', ks @ issued k n, k + word_of_nat n)
            \<and> \<not> scast a' < S \<and> (scast a < S \<longrightarrow> 0 < n)"
  assume step: "(if (scast a :: size_t) < S then f S B ?a (ks @ [ucast k]) (k + 1)
      else Some (a, ks, k)) = Some r"
  show "\<exists>n a'. r = (a', ks @ issued k n, k + word_of_nat n)
            \<and> \<not> scast a' < S \<and> (scast a < S \<longrightarrow> 0 < n)"
  proof (cases "(scast a :: size_t) < S")
    case False
    with step have "r = (a, ks @ issued k 0, k + word_of_nat 0)
            \<and> \<not> scast a < S \<and> (scast a < S \<longrightarrow> 0 < (0::nat))" by auto
    then show ?thesis by blast
  next
    case True
    with step have "f S B ?a (ks @ [ucast k]) (k + 1) = Some r" by simp
    from IH[OF this] obtain n a' where
      r: "r = (a', (ks @ [ucast k]) @ issued (k + 1) n, k + 1 + word_of_nat n)"
      and ex: "\<not> scast a' < S" by blast
    from r ex have "r = (a', ks @ issued k (Suc n), k + word_of_nat (Suc n))
            \<and> \<not> scast a' < S \<and> (scast a < S \<longrightarrow> 0 < Suc n)"
      by (simp add: add.assoc issued_Suc)
    then show ?thesis by blast
  qed
qed

text \<open>With a bound of 0 the accumulator never moves: the loop does not return.\<close>

lemma partition_loop_zero_bound:
  assumes "(scast a :: size_t) < S"
  shows "partition_loop S 0 a ks k = None"
proof (rule ccontr)
  assume "partition_loop S 0 a ks k \<noteq> None"
  then obtain r where r: "partition_loop S 0 a ks k = Some r" by auto
  have "\<not> (B = 0 \<and> (scast a :: size_t) < S)" if "partition_loop S B a ks k = Some r" for B
  proof (rule partition_loop.raw_induct[where P = "\<lambda>S B a ks k r. \<not> (B = 0 \<and> (scast a :: size_t) < S)", OF _ that])
    fix f :: "size_t \<Rightarrow> uint32_t \<Rightarrow> c_int \<Rightarrow> ps_Key list \<Rightarrow> uint32_t
       \<Rightarrow> (c_int \<times> ps_Key list \<times> uint32_t) option"
    fix S :: size_t and B :: uint32_t and a :: c_int and ks :: "ps_Key list" and k :: uint32_t
    and r :: "c_int \<times> ps_Key list \<times> uint32_t"
    let ?a = "ucast ((scast a :: size_t) + (if S - scast a > ucast B then ucast B else S - scast a)) :: c_int"
    assume IH: "\<And>S B a ks k r. f S B a ks k = Some r \<Longrightarrow> \<not> (B = 0 \<and> (scast a :: size_t) < S)"
    assume step: "(if (scast a :: size_t) < S then f S B ?a (ks @ [ucast k]) (k + 1)
      else Some (a, ks, k)) = Some r"
    show "\<not> (B = 0 \<and> (scast a :: size_t) < S)"
    proof
      assume h: "B = 0 \<and> (scast a :: size_t) < S"
      then have "0 < S - scast a" by (auto simp: word_greater_zero_iff)
      with h have "?a = ucast (scast a :: size_t)" by simp
      also have "\<dots> = a" by (rule bit_word_eqI) (auto simp: bit_simps)
      finally have "?a = a" .
      with step h have "f S B a (ks @ [ucast k]) (k + 1) = Some r" by simp
      from IH[OF this] h show False by simp
    qed
  qed
  with r assms show False by blast
qed

lemma partition_step:
  fixes S :: size_t and B :: uint32_t and a :: c_int
  assumes a31: "unat a < 2 ^ 31" and a: "unat a < unat S"
    and fit: "unat a + min (unat B) (unat S - unat a) < 2 ^ 32"
  shows "(scast a :: size_t) < S"
    and "unat (ucast ((scast a :: size_t)
                + (if S - scast a > ucast B then ucast B else S - scast a)) :: c_int)
         = unat a + min (unat B) (unat S - unat a)"
proof -
  have sa: "unat (scast a :: size_t) = unat a" by (rule unat_scast_small[OF a31])
  with a show lt: "(scast a :: size_t) < S" by (simp only: word_less_nat_alt)
  then have "(scast a :: size_t) \<le> S" by simp
  then have sub: "unat (S - scast a) = unat S - unat a" by (simp only: unat_sub sa)
  have cmp: "(ucast B < S - scast a) = (unat B < unat S - unat a)"
    by (simp only: word_less_nat_alt sub unat_ucast_size_t)
  let ?inc = "if S - scast a > ucast B then ucast B else S - scast a"
  have inc: "unat ?inc = min (unat B) (unat S - unat a)"
    by (simp only: cmp sub unat_ucast_size_t if_distrib[of unat] min_def not_less[symmetric]) auto
  have "(2::nat) ^ 32 < 2 ^ 64" by simp
  with fit have "unat a + min (unat B) (unat S - unat a) < 2 ^ 64" by (rule less_trans)
  then have "unat (scast a :: size_t) + unat ?inc < 2 ^ LENGTH(64)"
    by (simp only: sa inc) simp
  then have sum: "unat (scast a + ?inc) = unat a + min (unat B) (unat S - unat a)"
    by (simp only: unat_add_lem[THEN iffD1] sa inc)
  with fit have "unat (scast a + ?inc) < 2 ^ 32" by (simp only: sum)
  then have "unat (ucast (scast a + ?inc) :: c_int) = unat (scast a + ?inc)"
    by (rule unat_ucast_c_int)
  with sum show "unat (ucast (scast a + ?inc) :: c_int) = unat a + min (unat B) (unat S - unat a)"
    by simp
qed

lemma partition_step_small:
  fixes S :: size_t and B :: uint32_t and a :: c_int
  assumes S: "unat S < 2 ^ 31" and a: "unat a < unat S"
  shows "(scast a :: size_t) < S"
    and "unat (ucast ((scast a :: size_t)
                + (if S - scast a > ucast B then ucast B else S - scast a)) :: c_int)
         = unat a + min (unat B) (unat S - unat a)"
proof -
  from S a have a31: "unat a < 2 ^ 31" by (rule less_trans[rotated])
  have "unat a + min (unat B) (unat S - unat a) \<le> unat S" using a by arith
  moreover have "(2::nat) ^ 31 < 2 ^ 32" by simp
  ultimately have fit: "unat a + min (unat B) (unat S - unat a) < 2 ^ 32" using S by linarith
  show "(scast a :: size_t) < S" by (rule partition_step(1)[OF a31 a fit])
  show "unat (ucast ((scast a :: size_t)
                + (if S - scast a > ucast B then ucast B else S - scast a)) :: c_int)
         = unat a + min (unat B) (unat S - unat a)"
    by (rule partition_step(2)[OF a31 a fit])
qed

lemma partition_exit_small:
  fixes S :: size_t and a :: c_int
  assumes S: "unat S < 2 ^ 31" and a: "unat a = unat S"
  shows "\<not> (scast a :: size_t) < S" and "a = ucast S"
proof -
  from S a have a31: "unat a < 2 ^ 31" by simp
  have sa: "unat (scast a :: size_t) = unat a" by (rule unat_scast_small[OF a31])
  with a show "\<not> (scast a :: size_t) < S" by (simp only: word_less_nat_alt)
  from sa a have "(scast a :: size_t) = S" by (simp only: word_unat_eq_iff)
  then have "ucast (scast a :: size_t) = (ucast S :: c_int)" by simp
  then show "a = ucast S" by simp
qed

text \<open>
  For a size below \<open>2 ^ 31\<close> and a positive bound the loop returns with the accumulator
  equal to the size, after \<open>ceil (size / bound)\<close> rounds.
\<close>

lemma partition_loop_small:
  fixes S :: size_t and B :: uint32_t and a :: c_int
  assumes S: "unat S < 2 ^ 31" and B: "0 < unat B" and a: "unat a \<le> unat S"
  shows "partition_loop S B a ks k
       = Some (ucast S, ks @ issued k (chunks (unat S - unat a) (unat B)),
               k + word_of_nat (chunks (unat S - unat a) (unat B)))"
  using a
proof (induction "unat S - unat a" arbitrary: a ks k rule: less_induct)
  case less
  show ?case
  proof (cases "unat a = unat S")
    case True
    from partition_exit_small[OF S True] True B show ?thesis
      by (subst partition_loop.simps) (simp add: chunks_0)
  next
    case False
    with less.prems have lt: "unat a < unat S" by simp
    let ?a = "ucast ((scast a :: size_t)
                + (if S - scast a > ucast B then ucast B else S - scast a)) :: c_int"
    have st1: "(scast a :: size_t) < S" by (rule partition_step_small(1)[OF S lt])
    have ua: "unat ?a = unat a + min (unat B) (unat S - unat a)"
      by (rule partition_step_small(2)[OF S lt])
    then have le: "unat ?a \<le> unat S" using lt by simp
    have dec: "unat S - unat ?a < unat S - unat a"
      unfolding ua using lt B by arith
    have d: "unat S - unat ?a = (unat S - unat a) - min (unat B) (unat S - unat a)"
      unfolding ua by arith
    have "0 < unat S - unat a" using lt by arith
    from chunks_step[OF B this]
    have n: "chunks (unat S - unat a) (unat B) = Suc (chunks (unat S - unat ?a) (unat B))"
      unfolding d .
    have "partition_loop S B a ks k = partition_loop S B ?a (ks @ [ucast k]) (k + 1)"
      using st1 by (subst partition_loop.simps) simp
    also have "\<dots> = Some (ucast S, (ks @ [ucast k]) @ issued (k + 1) (chunks (unat S - unat ?a) (unat B)),
               k + 1 + word_of_nat (chunks (unat S - unat ?a) (unat B)))"
      by (rule less.hyps[OF dec le])
    also have "\<dots> = Some (ucast S, ks @ issued k (chunks (unat S - unat a) (unat B)),
               k + word_of_nat (chunks (unat S - unat a) (unat B)))"
      by (simp only: n issued_Suc) (simp add: add.assoc)
    finally show ?thesis .
  qed
qed

text \<open>Rounds that take a full chunk and keep the accumulator below \<open>2 ^ 31\<close>.\<close>

lemma partition_loop_prefix:
  fixes S :: size_t and B :: uint32_t and a :: c_int
  assumes "unat a + n * unat B < 2 ^ 31" and "unat a + n * unat B < unat S"
  shows "partition_loop S B a ks k
       = partition_loop S B (a + word_of_nat n * B) (ks @ issued k n) (k + word_of_nat n)"
  using assms
proof (induction n arbitrary: a ks k)
  case 0
  then show ?case by simp
next
  case (Suc n)
  let ?a = "ucast ((scast a :: size_t)
                + (if S - scast a > ucast B then ucast B else S - scast a)) :: c_int"
  from Suc.prems have a31: "unat a < 2 ^ 31" and lt: "unat a < unat S"
    and b: "unat a + unat B < 2 ^ 31" and bS: "unat a + unat B < unat S"
    by simp_all
  have m: "min (unat B) (unat S - unat a) = unat B" using bS by arith
  have "(2::nat) ^ 31 < 2 ^ 32" by simp
  with b have fit: "unat a + min (unat B) (unat S - unat a) < 2 ^ 32"
    by (simp only: m)
  have st1: "(scast a :: size_t) < S" by (rule partition_step(1)[OF a31 lt fit])
  have "unat ?a = unat a + min (unat B) (unat S - unat a)"
    by (rule partition_step(2)[OF a31 lt fit])
  then have ua: "unat ?a = unat a + unat B" by (simp only: m)
  have "(2::nat) ^ 31 < 2 ^ 32" by simp
  with b have "unat a + unat B < 2 ^ LENGTH(32)" by simp
  then have "unat (a + B) = unat a + unat B" by (rule unat_add_lem[THEN iffD1])
  with ua have eq: "?a = a + B" by (simp only: word_unat_eq_iff)
  from Suc.prems ua have p1: "unat ?a + n * unat B < 2 ^ 31"
    and p2: "unat ?a + n * unat B < unat S" by simp_all
  have "partition_loop S B a ks k = partition_loop S B ?a (ks @ [ucast k]) (k + 1)"
    using st1 by (subst partition_loop.simps) simp
  also have "\<dots> = partition_loop S B (?a + word_of_nat n * B)
      ((ks @ [ucast k]) @ issued (k + 1) n) (k + 1 + word_of_nat n)"
    by (rule Suc.IH[OF p1 p2])
  also have "?a + word_of_nat n * B = a + word_of_nat (Suc n) * B"
    by (simp only: eq) (simp add: algebra_simps)
  also have "(ks @ [ucast k]) @ issued (k + 1) n = ks @ issued k (Suc n)"
    by (simp add: issued_Suc)
  also have "k + 1 + word_of_nat n = k + word_of_nat (Suc n)" by simp
  finally show ?case .
qed

lemma partition_loop_3GB:
  "partition_loop 3000000000 2048000 0 [] 0 = Some (2148352000, issued 0 1049, 1049)"
proof -
  have u: "unat (2048000 :: uint32_t) = 2048000" "unat (3000000000 :: size_t) = 3000000000"
    "unat (0 :: c_int) = 0"
    by simp_all
  have p1: "unat (0 :: c_int) + 1048 * unat (2048000 :: uint32_t) < 2 ^ 31"
    and p2: "unat (0 :: c_int) + 1048 * unat (2048000 :: uint32_t) < unat (3000000000 :: size_t)"
    by (simp_all only: u) simp_all
  have "partition_loop 3000000000 2048000 0 [] 0
      = partition_loop 3000000000 2048000 (0 + word_of_nat 1048 * 2048000)
          ([] @ issued 0 1048) (0 + word_of_nat 1048)"
    by (rule partition_loop_prefix[OF p1 p2])
  also have "\<dots> = partition_loop 3000000000 2048000 2146304000 (issued 0 1048) 1048"
    by simp
  also have "\<dots> = Some (2148352000, issued 0 1048 @ [1048], 1049)"
    by (simp add: partition_loop.simps)
  also have "issued 0 1048 @ [1048] = issued 0 (1048 + Suc 0)"
    by (simp only: issued_append[symmetric] issued_1) simp
  finally show ?thesis by simp
qed

lemma partition_step_neg:
  fixes S :: size_t and B :: uint32_t and a :: c_int
  assumes neg: "2 ^ 31 \<le> unat a" and lt: "unat a + 18446744069414584320 < unat S"
  shows "(scast a :: size_t) < S"
    and "unat (ucast ((scast a :: size_t)
                + (if S - scast a > ucast B then ucast B else S - scast a)) :: c_int)
         = unat a + min (unat B) (unat S - (unat a + 18446744069414584320))"
    and "unat a + min (unat B) (unat S - (unat a + 18446744069414584320)) < 2 ^ 32"
proof -
  let ?K = "18446744069414584320 :: nat"
  let ?m = "min (unat B) (unat S - (unat a + ?K))"
  have sa: "unat (scast a :: size_t) = unat a + ?K" by (rule unat_scast_neg[OF neg])
  with lt show "(scast a :: size_t) < S" by (simp only: word_less_nat_alt)
  then have "(scast a :: size_t) \<le> S" by simp
  then have sub: "unat (S - scast a) = unat S - (unat a + ?K)" by (simp only: unat_sub sa)
  have cmp: "(ucast B < S - scast a) = (unat B < unat S - (unat a + ?K))"
    by (simp only: word_less_nat_alt sub unat_ucast_size_t)
  let ?inc = "if S - scast a > ucast B then ucast B else S - scast a"
  have inc: "unat ?inc = ?m"
    by (simp only: cmp sub unat_ucast_size_t if_distrib[of unat] min_def not_less[symmetric]) auto
  have S64: "unat S < 18446744073709551616" using unsigned_less[of S, where 'a = nat] by simp
  have le: "unat a + ?K + ?m \<le> unat S" using lt by arith
  with S64 show fit: "unat a + ?m < 2 ^ 32" by simp
  from le S64 have "unat (scast a :: size_t) + unat ?inc < 2 ^ LENGTH(64)"
    by (simp only: sa inc) simp
  then have sum: "unat (scast a + ?inc) = unat a + ?K + ?m"
    by (simp only: unat_add_lem[THEN iffD1] sa inc)
  have K: "?K = 4294967295 * 2 ^ 32" by simp
  have "unat (ucast (scast a + ?inc) :: c_int) = (unat a + ?K + ?m) mod 2 ^ 32"
    by (simp only: unsigned_ucast_eq take_bit_eq_mod sum) simp
  also have "unat a + ?K + ?m = unat a + ?m + 4294967295 * 2 ^ 32" by (simp only: K)
  also have "(unat a + ?m + 4294967295 * 2 ^ 32) mod 2 ^ 32 = (unat a + ?m) mod 2 ^ 32"
    by (rule mod_mult_self1)
  also have "\<dots> = unat a + ?m" using fit by (rule mod_less)
  finally show "unat (ucast (scast a + ?inc) :: c_int) = unat a + ?m" .
qed

text \<open>
  Termination.  A negative accumulator only grows until, sign-extended, it reaches the
  size; an accumulator that is not negative grows by a bound below \<open>2 ^ 31\<close> until it
  reaches the size or turns negative; a bound of \<open>2 ^ 31\<close> or more takes the accumulator
  from 0 to the size or to a negative value in one round.
\<close>

lemma partition_loop_returns_neg:
  fixes S :: size_t and B :: uint32_t and a :: c_int
  assumes neg: "2 ^ 31 \<le> unat a" and pos: "0 < unat B"
  shows "\<exists>r. partition_loop S B a ks k = Some r"
  using neg
proof (induction "2 ^ 32 - unat a" arbitrary: a ks k rule: less_induct)
  case less
  show ?case
  proof (cases "(scast a :: size_t) < S")
    case False
    then show ?thesis by (subst partition_loop.simps) simp
  next
    case True
    let ?a = "ucast ((scast a :: size_t)
                + (if S - scast a > ucast B then ucast B else S - scast a)) :: c_int"
    let ?m = "min (unat B) (unat S - (unat a + 18446744069414584320))"
    from True have lt: "unat a + 18446744069414584320 < unat S"
      by (simp only: word_less_nat_alt unat_scast_neg[OF less.prems])
    have ua: "unat ?a = unat a + ?m" by (rule partition_step_neg(2)[OF less.prems lt])
    have fit: "unat a + ?m < 2 ^ 32" by (rule partition_step_neg(3)[OF less.prems lt])
    from lt pos have m: "0 < ?m" by simp
    from less.prems m have neg': "2 ^ 31 \<le> unat ?a" unfolding ua by arith
    from fit m have dec: "2 ^ 32 - unat ?a < 2 ^ 32 - unat a" unfolding ua by arith
    have "partition_loop S B a ks k = partition_loop S B ?a (ks @ [ucast k]) (k + 1)"
      using True by (subst partition_loop.simps) simp
    with less.hyps[OF dec neg', of "ks @ [ucast k]" "k + 1"] show ?thesis by simp
  qed
qed

lemma partition_loop_returns_pos:
  fixes S :: size_t and B :: uint32_t and a :: c_int
  assumes a31: "unat a < 2 ^ 31" and pos: "0 < unat B" and B31: "unat B < 2 ^ 31"
  shows "\<exists>r. partition_loop S B a ks k = Some r"
  using a31
proof (induction "2 ^ 31 - unat a" arbitrary: a ks k rule: less_induct)
  case less
  show ?case
  proof (cases "(scast a :: size_t) < S")
    case False
    then show ?thesis by (subst partition_loop.simps) simp
  next
    case True
    let ?a = "ucast ((scast a :: size_t)
                + (if S - scast a > ucast B then ucast B else S - scast a)) :: c_int"
    let ?m = "min (unat B) (unat S - unat a)"
    from True have lt: "unat a < unat S"
      by (simp only: word_less_nat_alt unat_scast_small[OF less.prems])
    have "(2::nat) ^ 32 = 2 ^ 31 + 2 ^ 31" by simp
    with less.prems B31 have fit: "unat a + ?m < 2 ^ 32" by simp
    have ua: "unat ?a = unat a + ?m" by (rule partition_step(2)[OF less.prems lt fit])
    from lt pos have m: "0 < ?m" by simp
    have step: "partition_loop S B a ks k = partition_loop S B ?a (ks @ [ucast k]) (k + 1)"
      using True by (subst partition_loop.simps) simp
    show ?thesis
    proof (cases "unat ?a < 2 ^ 31")
      case True
      from less.prems m have dec: "2 ^ 31 - unat ?a < 2 ^ 31 - unat a" unfolding ua by arith
      from less.hyps[OF dec True, of "ks @ [ucast k]" "k + 1"] step show ?thesis by simp
    next
      case False
      then have "2 ^ 31 \<le> unat ?a" by simp
      from partition_loop_returns_neg[OF this pos, of S "ks @ [ucast k]" "k + 1"] step
      show ?thesis by simp
    qed
  qed
qed

lemma partition_loop_returns:
  fixes S :: size_t and B :: uint32_t
  assumes pos: "0 < unat B"
  shows "\<exists>r. partition_loop S B 0 ks k = Some r"
proof (cases "unat B < 2 ^ 31")
  case True
  have "unat (0 :: c_int) < 2 ^ 31" by simp
  then show ?thesis using pos True by (rule partition_loop_returns_pos)
next
  case big: False
  show ?thesis
  proof (cases "(scast (0 :: c_int) :: size_t) < S")
    case False
    then show ?thesis by (subst partition_loop.simps) simp
  next
    case True
    let ?a = "ucast ((scast (0 :: c_int) :: size_t)
                + (if S - scast (0 :: c_int) > ucast B then ucast B else S - scast (0 :: c_int)))
              :: c_int"
    have z31: "unat (0 :: c_int) < 2 ^ 31" by simp
    from True have lt: "unat (0 :: c_int) < unat S"
      by (simp only: word_less_nat_alt unat_scast_small[OF z31])
    have "unat B < 2 ^ 32" using unsigned_less[of B, where 'a = nat] by simp
    then have fit: "unat (0 :: c_int) + min (unat B) (unat S - unat (0 :: c_int)) < 2 ^ 32"
      by simp
    have "unat ?a = unat (0 :: c_int) + min (unat B) (unat S - unat (0 :: c_int))"
      by (rule partition_step(2)[OF z31 lt fit])
    then have ua: "unat ?a = min (unat B) (unat S)" by simp
    have step: "partition_loop S B 0 ks k = partition_loop S B ?a (ks @ [ucast k]) (k + 1)"
      using True by (subst partition_loop.simps) simp
    show ?thesis
    proof (cases "unat ?a < 2 ^ 31")
      case False
      then have "2 ^ 31 \<le> unat ?a" by simp
      from partition_loop_returns_neg[OF this pos, of S "ks @ [ucast k]" "k + 1"] step
      show ?thesis by simp
    next
      case small: True
      with big have eq: "unat ?a = unat S" unfolding ua by arith
      with small have S31: "unat S < 2 ^ 31" by simp
      have "\<not> (scast ?a :: size_t) < S" by (rule partition_exit_small(1)[OF S31 eq])
      then have "partition_loop S B ?a (ks @ [ucast k]) (k + 1) = Some (?a, ks @ [ucast k], k + 1)"
        by (subst partition_loop.simps) simp
      with step show ?thesis by simp
    qed
  qed
qed

text \<open>For a positive size the loop returns exactly when the bound is positive.\<close>

lemma partition_loop_returns_iff:
  fixes S :: size_t and B :: uint32_t
  assumes "0 < S"
  shows "(\<exists>r. partition_loop S B 0 ks k = Some r) \<longleftrightarrow> 0 < B"
proof
  assume "\<exists>r. partition_loop S B 0 ks k = Some r"
  then obtain r where r: "partition_loop S B 0 ks k = Some r" by blast
  show "0 < B"
  proof (rule ccontr)
    assume "\<not> 0 < B"
    then have "B = 0" by (simp add: word_greater_zero_iff)
    moreover from assms have "(scast (0 :: c_int) :: size_t) < S" by simp
    ultimately have "partition_loop S B 0 ks k = None"
      by (simp only: partition_loop_zero_bound)
    with r show False by simp
  qed
next
  assume "0 < B"
  then have "0 < unat B" by (simp add: word_greater_zero_iff unat_gt_0)
  then show "\<exists>r. partition_loop S B 0 ks k = Some r" by (rule partition_loop_returns)
qed


subsection \<open>The scheduled queue\<close>

lemma sq_addTasks: "sq (addTasks q es) = sq q @ es"
  by (induction es arbitrary: q) (simp_all add: addTask_def)

lemma addTasks_empty: "addTasks \<lparr>sq = []\<rparr> es = \<lparr>sq = es\<rparr>"
  using sq_addTasks[of "\<lparr>sq = []\<rparr>" es] by (cases "addTasks \<lparr>sq = []\<rparr> es") simp

lemma getTasks_take_drop:
  "j \<le> length xs \<Longrightarrow> getTasks j \<lparr>sq = xs\<rparr> = Inr (take j xs, \<lparr>sq = drop j xs\<rparr>)"
proof (induction j arbitrary: xs)
  case 0
  then show ?case by simp
next
  case (Suc j)
  then obtain x rest where xs: "xs = x # rest" by (cases xs) auto
  with Suc.prems have "j \<le> length rest" by simp
  from Suc.IH[OF this] xs show ?case by (simp add: getTask_def)
qed

text \<open>
  Claim C8.  On a queue that starts empty, \<open>K\<close> calls of \<open>addTask\<close> followed by
  \<open>J \<le> K\<close> calls of \<open>getTask\<close> return the first \<open>J\<close> entries in the order they were
  added and leave the other \<open>K - J\<close> in the queue; \<open>pendingSize\<close> then returns \<open>K - J\<close>
  as a \<open>uint32_t\<close>, which is the number \<open>K - J\<close> itself below \<open>2 ^ 32\<close> pending entries.
\<close>

theorem queue_fifo:
  assumes "J \<le> length es"
  shows "getTasks J (addTasks \<lparr>sq = []\<rparr> es) = Inr (take J es, \<lparr>sq = drop J es\<rparr>)
       \<and> pendingSize \<lparr>sq = drop J es\<rparr> = word_of_nat (length es - J)
       \<and> (length es - J < 2 ^ 32 \<longrightarrow> unat (pendingSize \<lparr>sq = drop J es\<rparr>) = length es - J)"
proof -
  have "getTasks J (addTasks \<lparr>sq = []\<rparr> es) = Inr (take J es, \<lparr>sq = drop J es\<rparr>)"
    using assms by (simp only: addTasks_empty getTasks_take_drop)
  moreover have p: "pendingSize \<lparr>sq = drop J es\<rparr> = word_of_nat (length es - J)"
    by (simp add: pendingSize_def)
  moreover have "unat (pendingSize \<lparr>sq = drop J es\<rparr>) = length es - J"
    if "length es - J < 2 ^ 32"
    using that unfolding p by (simp add: unat_of_nat)
  ultimately show ?thesis by blast
qed

theorem queue_fifo_witness:
  "getTasks 2 (addTasks \<lparr>sq = []\<rparr> [10, 20, 30 :: nat]) = Inr ([10, 20], \<lparr>sq = [30]\<rparr>)
     \<and> pendingSize \<lparr>sq = [30 :: nat]\<rparr> = 1 \<and> unat (pendingSize \<lparr>sq = [30 :: nat]\<rparr>) = 1"
  using queue_fifo[of 2 "[10, 20, 30 :: nat]"] by simp

text \<open>
  Claim C7, as amended.  On a queue that is not empty \<open>getTask\<close> returns the head entry
  and removes it, and \<open>peekTask\<close> returns the head entry and leaves the queue as it was.
\<close>

theorem queue_head:
  assumes "sq q = front # rest"
  shows "getTask q = Inr (front, q\<lparr>sq := rest\<rparr>) \<and> peekTask q = Inr (front, q)"
  using assms by (simp add: getTask_def peekTask_def)

theorem queue_head_witness:
  "sq \<lparr>sq = [7, 8 :: nat]\<rparr> = 7 # [8]
     \<and> getTask \<lparr>sq = [7, 8 :: nat]\<rparr> = Inr (7, \<lparr>sq = [8]\<rparr>)
     \<and> peekTask \<lparr>sq = [7, 8 :: nat]\<rparr> = Inr (7, \<lparr>sq = [7, 8]\<rparr>)"
  using queue_head[of "\<lparr>sq = [7, 8 :: nat]\<rparr>" 7 "[8]"] by simp

text \<open>
  Claim C7 as stated fails: on an empty queue both calls take \<open>front()\<close> of an empty
  container, for which no behaviour is defined; the code has no \<open>EmptyQueueError\<close>.
\<close>

theorem queue_empty_undefined:
  "getTask \<lparr>sq = ([] :: nat list)\<rparr> = Inl Undefined \<and> peekTask \<lparr>sq = ([] :: nat list)\<rparr> = Inl Undefined"
  by (simp add: getTask_def peekTask_def)


subsection \<open>Registration\<close>

lemma IsTensorInitialized_known:
  assumes "fmlookup (name_to_cxt g) name = Some cxt" and "0 < sz"
  shows "IsTensorInitialized alloc name sz device dtype g = Some (Inr (True, g))"
  using assms by (simp add: IsTensorInitialized_def)

lemma IsTensorInitialized_returns:
  assumes "IsTensorInitialized alloc name sz device dtype g = Some (Inr (known, g'))"
  shows "0 < sz \<and> (\<exists>cxt. fmlookup (name_to_cxt g') name = Some cxt)"
  using assms
  by (auto simp: IsTensorInitialized_def Let_def split: if_splits option.splits)

lemma register_w:
  "IsTensorInitialized no_device_memory ''w'' 8 CPU_DEVICE_ID BYTEPS_FLOAT32 initial_global
     = Some (Inr (False, w_registered))"
  by (simp add: IsTensorInitialized_def initial_global_def ConvertBoundToBytes_def
      default_BPSContext_def partition_loop.simps w_registered_def)

text \<open>
  Claim C5.  After a call of \<open>IsTensorInitialized\<close> has returned, a second call with the
  same name and the same size returns \<open>true\<close> and the state it leaves is the state it
  found: every key list, every buffer length and the key counter are untouched.
\<close>

theorem reregistration_same_size:
  assumes "IsTensorInitialized alloc name sz device dtype g = Some (Inr (known, g'))"
  shows "IsTensorInitialized alloc name sz device dtype g' = Some (Inr (True, g'))"
proof -
  from IsTensorInitialized_returns[OF assms] obtain cxt
    where "0 < sz" and "fmlookup (name_to_cxt g') name = Some cxt" by blast
  then show ?thesis by (rule IsTensorInitialized_known[rotated])
qed

theorem reregistration_same_size_witness:
  "IsTensorInitialized no_device_memory ''w'' 8 CPU_DEVICE_ID BYTEPS_FLOAT32 initial_global
     = Some (Inr (False, w_registered))
   \<and> IsTensorInitialized no_device_memory ''w'' 8 CPU_DEVICE_ID BYTEPS_FLOAT32 w_registered
     = Some (Inr (True, w_registered))"
  using register_w reregistration_same_size[OF register_w] by (rule conjI)

text \<open>
  Claim C4, as amended.  After a call of \<open>IsTensorInitialized\<close> has returned, a second
  call with the same name and another size returns \<open>true\<close> and leaves the state as it
  was whenever the new size is positive; only a new size of 0 is fatal.  The registry
  keeps no size to compare with.
\<close>

theorem reregistration_other_size:
  assumes "IsTensorInitialized alloc name sz device dtype g = Some (Inr (known, g'))"
    and "sz' \<noteq> sz"
  shows "IsTensorInitialized alloc name sz' device' dtype' g'
       = (if 0 < sz' then Some (Inr (True, g')) else Some (Inl CheckFailed))"
proof -
  from IsTensorInitialized_returns[OF assms(1)] obtain cxt
    where "fmlookup (name_to_cxt g') name = Some cxt" by blast
  then show ?thesis by (simp add: IsTensorInitialized_def)
qed

theorem reregistration_other_size_witness:
  "IsTensorInitialized no_device_memory ''w'' 8 CPU_DEVICE_ID BYTEPS_FLOAT32 initial_global
     = Some (Inr (False, w_registered))
   \<and> (4096 :: size_t) \<noteq> 8
   \<and> IsTensorInitialized no_device_memory ''w'' 4096 CPU_DEVICE_ID BYTEPS_FLOAT64 w_registered
     = Some (Inr (True, w_registered))"
  using register_w reregistration_other_size[OF register_w, of 4096 CPU_DEVICE_ID BYTEPS_FLOAT64]
  by simp

text \<open>
  Claim C4 as stated fails: tensor \<open>w\<close> is registered with 8 bytes and then with 16 bytes,
  and the second call returns \<open>true\<close>.
\<close>

theorem reregistration_other_size_returns:
  "IsTensorInitialized no_device_memory ''w'' 8 CPU_DEVICE_ID BYTEPS_FLOAT32 initial_global
     = Some (Inr (False, w_registered))
   \<and> IsTensorInitialized no_device_memory ''w'' 16 CPU_DEVICE_ID BYTEPS_FLOAT32 w_registered
     = Some (Inr (True, w_registered))"
  by (simp add: IsTensorInitialized_def initial_global_def ConvertBoundToBytes_def
      default_BPSContext_def partition_loop.simps w_registered_def)

text \<open>
  Claim C10.  \<open>GetContextFromName\<close> on a name that is not registered returns a default
  context (no keys, no buffer) and stores it under the name; \<open>GetTensorCount\<close> is one
  more than before (in \<open>uint32_t\<close> arithmetic), the key counter is unchanged, and a later
  \<open>IsTensorInitialized\<close> for the name, with a positive size, returns \<open>true\<close> without
  partitioning anything.
\<close>

theorem unregistered_lookup_inserts:
  assumes "fmlookup (name_to_cxt g) name = None"
  shows "fst (GetContextFromName name g) = default_BPSContext
       \<and> key_list default_BPSContext = [] \<and> cpubuff default_BPSContext = None
       \<and> fmlookup (name_to_cxt (snd (GetContextFromName name g))) name = Some default_BPSContext
       \<and> GetTensorCount (snd (GetContextFromName name g)) = GetTensorCount g + 1
       \<and> (0 < sz \<longrightarrow> IsTensorInitialized alloc name sz device dtype (snd (GetContextFromName name g))
              = Some (Inr (True, snd (GetContextFromName name g))))
       \<and> next_key (snd (GetContextFromName name g)) = next_key g"
proof -
  let ?g = "g\<lparr>name_to_cxt := fmupd name default_BPSContext (name_to_cxt g)\<rparr>"
  from assms have r: "GetContextFromName name g = (default_BPSContext, ?g)"
    by (simp add: GetContextFromName_def)
  from assms have "name |\<notin>| fmdom (name_to_cxt g)" by (rule fmdom_notI)
  then have "GetTensorCount ?g = GetTensorCount g + 1"
    by (simp add: GetTensorCount_def fcard_finsert_disjoint)
  moreover have "0 < sz \<longrightarrow> IsTensorInitialized alloc name sz device dtype ?g = Some (Inr (True, ?g))"
    by (simp add: IsTensorInitialized_def)
  ultimately show ?thesis
    unfolding r by (simp add: default_BPSContext_def)
qed

theorem unregistered_lookup_inserts_witness:
  "fmlookup (name_to_cxt initial_global) ''ghost'' = None
   \<and> fst (GetContextFromName ''ghost'' initial_global) = default_BPSContext
   \<and> GetTensorCount initial_global = 0
   \<and> GetTensorCount (snd (GetContextFromName ''ghost'' initial_global)) = 1
   \<and> IsTensorInitialized no_device_memory ''ghost'' 4096 CPU_DEVICE_ID BYTEPS_FLOAT32
        (snd (GetContextFromName ''ghost'' initial_global))
      = Some (Inr (True, snd (GetContextFromName ''ghost'' initial_global)))
   \<and> keys_of (snd (GetContextFromName ''ghost'' initial_global)) ''ghost'' = []"
  using unregistered_lookup_inserts[of initial_global "''ghost''" 4096 no_device_memory
      CPU_DEVICE_ID BYTEPS_FLOAT32]
  by (simp add: initial_global_def GetTensorCount_def keys_of_def default_BPSContext_def
      fcard_fempty)

text \<open>
  Below \<open>2 ^ 31\<close> bytes the accumulator does not overflow: a first registration with a
  positive bound returns, and its keys stand for \<open>ceil (size / bound)\<close> chunks that add
  up to the size, none of them above the bound.
\<close>

lemma first_registration_small:
  assumes fresh: "fmlookup (name_to_cxt g) name = None"
    and sz: "0 < unat sz" "unat sz < 2 ^ 31"
    and bnd: "bound = (if next_key g = 0 then ConvertBoundToBytes dtype (partition_bound g)
                       else partition_bound g)"
    and pos: "0 < unat bound"
    and mem: "device \<noteq> CPU_DEVICE_ID \<Longrightarrow> alloc sz \<noteq> None"
  shows "IsTensorInitialized alloc name sz device dtype g
       = Some (Inr (False,
           g\<lparr>partition_bound := bound,
             next_key := next_key g + word_of_nat (chunks (unat sz) (unat bound)),
             name_to_cxt := fmupd name
               \<lparr>key_list = issued (next_key g) (chunks (unat sz) (unat bound)),
                cpubuff = (if device \<noteq> CPU_DEVICE_ID then alloc sz else None),
                buff_len = (if device \<noteq> CPU_DEVICE_ID then sz else 0)\<rparr>
               (name_to_cxt g)\<rparr>))"
proof -
  from sz(1) have "0 < sz" by (simp add: word_greater_zero_iff unat_gt_0)
  have "unat (0 :: c_int) \<le> unat sz" by simp
  from partition_loop_small[OF sz(2) pos this, of "[]" "next_key g"]
  have loop: "partition_loop sz bound 0 [] (next_key g)
      = Some (ucast sz, issued (next_key g) (chunks (unat sz) (unat bound)),
              next_key g + word_of_nat (chunks (unat sz) (unat bound)))"
    by simp
  show ?thesis
  proof (cases "device = CPU_DEVICE_ID")
    case True
    with fresh \<open>0 < sz\<close> loop show ?thesis
      by (simp add: IsTensorInitialized_def bnd[symmetric] default_BPSContext_def)
  next
    case False
    with mem have "alloc sz \<noteq> None" by simp
    with False fresh \<open>0 < sz\<close> loop show ?thesis
      by (simp add: IsTensorInitialized_def bnd[symmetric] default_BPSContext_def)
  qed
qed

lemma partition_covers_small:
  assumes fresh: "fmlookup (name_to_cxt g) name = None"
    and sz: "0 < unat sz" "unat sz < 2 ^ 31"
    and bnd: "bound = (if next_key g = 0 then ConvertBoundToBytes dtype (partition_bound g)
                       else partition_bound g)"
    and pos: "0 < unat bound"
    and mem: "device \<noteq> CPU_DEVICE_ID \<Longrightarrow> alloc sz \<noteq> None"
  shows "\<exists>g'. IsTensorInitialized alloc name sz device dtype g = Some (Inr (False, g'))
          \<and> length (keys_of g' name) = chunks (unat sz) (unat bound)
          \<and> sum_list (chunk_sizes (unat sz) (unat bound) (length (keys_of g' name))) = unat sz
          \<and> list_all (\<lambda>c. 0 < c \<and> c \<le> unat bound)
                (chunk_sizes (unat sz) (unat bound) (length (keys_of g' name)))"
proof -
  let ?g = "g\<lparr>partition_bound := bound,
             next_key := next_key g + word_of_nat (chunks (unat sz) (unat bound)),
             name_to_cxt := fmupd name
               \<lparr>key_list = issued (next_key g) (chunks (unat sz) (unat bound)),
                cpubuff = (if device \<noteq> CPU_DEVICE_ID then alloc sz else None),
                buff_len = (if device \<noteq> CPU_DEVICE_ID then sz else 0)\<rparr>
               (name_to_cxt g)\<rparr>"
  have reg: "IsTensorInitialized alloc name sz device dtype g = Some (Inr (False, ?g))"
    using fresh sz bnd pos mem by (rule first_registration_small)
  have len: "length (keys_of ?g name) = chunks (unat sz) (unat bound)"
    by (simp add: keys_of_def)
  note cov = chunk_sizes_cover[OF pos, of "unat sz"]
  from cov have "sum_list (chunk_sizes (unat sz) (unat bound) (length (keys_of ?g name))) = unat sz"
    and "list_all (\<lambda>c. 0 < c \<and> c \<le> unat bound)
                (chunk_sizes (unat sz) (unat bound) (length (keys_of ?g name)))"
    by (simp_all only: len)
  with reg len show ?thesis by blast
qed


subsection \<open>The accumulator overflow\<close>

text \<open>
  Claim C1 at a tensor of 3000000000 bytes of 32-bit floats, registered first, with the
  default bound of 512000 elements, that is 2048000 bytes.  The claim asks for 1465 keys
  whose chunks add up to the size.  The code issues 1049 keys, which stand for
  2148352000 bytes: after 1048 rounds the \<open>int\<close> accumulator holds 2146304000, the next
  round takes it beyond \<open>2 ^ 31 - 1\<close>, it becomes negative, and as a \<open>size_t\<close> it is no
  longer below the size.
\<close>

theorem partition_3GB:
  "IsTensorInitialized no_device_memory ''grad'' 3000000000 CPU_DEVICE_ID BYTEPS_FLOAT32
     initial_global
   = Some (Inr (False, \<lparr>initialized = False, partition_bound = 2048000, next_key = 1049,
        name_to_cxt = fmupd ''grad''
          \<lparr>key_list = issued 0 1049, cpubuff = None, buff_len = 0\<rparr> fmempty,
        ps_kv = fmempty\<rparr>))
   \<and> length (issued 0 1049) = 1049
   \<and> chunks 3000000000 2048000 = 1465
   \<and> sum_list (chunk_sizes 3000000000 2048000 1049) = 2148352000"
proof -
  have "chunk_sizes 3000000000 2048000 1049 = replicate 1049 2048000"
    by (rule chunk_sizes_full) simp
  then have "sum_list (chunk_sizes 3000000000 2048000 1049) = 2148352000"
    by (simp add: sum_list_replicate)
  moreover have "chunks 3000000000 2048000 = 1465" by (simp add: chunks_def)
  moreover have "IsTensorInitialized no_device_memory ''grad'' 3000000000 CPU_DEVICE_ID
      BYTEPS_FLOAT32 initial_global
   = Some (Inr (False, \<lparr>initialized = False, partition_bound = 2048000, next_key = 1049,
        name_to_cxt = fmupd ''grad''
          \<lparr>key_list = issued 0 1049, cpubuff = None, buff_len = 0\<rparr> fmempty,
        ps_kv = fmempty\<rparr>))"
    by (simp add: IsTensorInitialized_def initial_global_def ConvertBoundToBytes_def
      default_BPSContext_def partition_loop_3GB)
  ultimately show ?thesis by simp
qed

lemma Init_268435456:
  "Init (Some ''268435456'') initial_global
     = Inr \<lparr>initialized = True, partition_bound = 268435456, next_key = 0,
            name_to_cxt = fmempty, ps_kv = fmempty\<rparr>"
  by (simp add: Init_def initial_global_def atoi_def strtol10_def isspace_def isdigit_def)

text \<open>
  The same overflow in two rounds: with \<open>BYTEPS_PARTITION_BOUND=268435456\<close> and 32-bit
  floats the bound is \<open>2 ^ 30\<close> bytes, and a tensor of 3 GiB gets 2 keys, which stand for
  2147483648 bytes, where 3 keys are needed.
\<close>

lemma partition_3GiB:
  "Init (Some ''268435456'') initial_global
     = Inr \<lparr>initialized = True, partition_bound = 268435456, next_key = 0,
            name_to_cxt = fmempty, ps_kv = fmempty\<rparr>
   \<and> IsTensorInitialized no_device_memory ''grad'' 3221225472 CPU_DEVICE_ID BYTEPS_FLOAT32
        \<lparr>initialized = True, partition_bound = 268435456, next_key = 0,
            name_to_cxt = fmempty, ps_kv = fmempty\<rparr>
     = Some (Inr (False, \<lparr>initialized = True, partition_bound = 1073741824, next_key = 2,
          name_to_cxt = fmupd ''grad'' \<lparr>key_list = [0, 1], cpubuff = None, buff_len = 0\<rparr> fmempty,
          ps_kv = fmempty\<rparr>))
   \<and> chunks 3221225472 1073741824 = 3
   \<and> sum_list (chunk_sizes 3221225472 1073741824 2) = 2147483648"
  by (simp add: Init_268435456 IsTensorInitialized_def ConvertBoundToBytes_def
      default_BPSContext_def partition_loop.simps chunks_def chunk_sizes_2)

text \<open>
  Claim C9 at a first tensor of 3000000000 bytes with the default bound of 2048000 bytes,
  and at a tensor of 3 GiB with a bound of \<open>2 ^ 30\<close> bytes.  The bound is positive and
  the loop does end, but not with \<open>accumulated == size\<close>: it ends after 1049 rounds, and
  after 2 rounds, with a negative accumulator that, as a \<open>size_t\<close>, differs from the size.
\<close>

theorem loop_exits_early:
  "partition_loop 3000000000 2048000 0 [] 0 = Some (2148352000, issued 0 1049, 1049)
   \<and> sint (2148352000 :: c_int) = - 2146615296
   \<and> (scast (2148352000 :: c_int) :: size_t) \<noteq> 3000000000
   \<and> partition_loop 3221225472 1073741824 0 [] 0 = Some (2147483648, [0, 1], 2)
   \<and> sint (2147483648 :: c_int) = - 2147483648
   \<and> (scast (2147483648 :: c_int) :: size_t) \<noteq> 3221225472"
proof -
  have "partition_loop 3221225472 1073741824 0 [] 0 = Some (2147483648, [0, 1], 2)"
    by (simp add: partition_loop.simps)
  moreover have "sint (2148352000 :: c_int) = - 2146615296"
    and "(scast (2148352000 :: c_int) :: size_t) \<noteq> 3000000000"
    and "sint (2147483648 :: c_int) = - 2147483648"
    and "(scast (2147483648 :: c_int) :: size_t) \<noteq> 3221225472"
    by simp_all
  ultimately show ?thesis using partition_loop_3GB by blast
qed


subsection \<open>The key counter\<close>

lemma IsTensorInitialized_issues:
  assumes "IsTensorInitialized alloc name sz device dtype g = Some (Inr (known, g'))"
  shows "\<exists>n. (if known then [] else keys_of g' name) = issued (next_key g) n
            \<and> next_key g' = next_key g + word_of_nat n"
proof (cases "fmlookup (name_to_cxt g) name")
  case (Some cxt)
  with assms have "known" and "g' = g"
    by (auto simp: IsTensorInitialized_def split: if_splits)
  then have "(if known then [] else keys_of g' name) = issued (next_key g) 0
            \<and> next_key g' = next_key g + word_of_nat 0" by simp
  then show ?thesis by blast
next
  case None
  let ?bound = "if next_key g = 0 then ConvertBoundToBytes dtype (partition_bound g)
      else partition_bound g"
  from None assms obtain r klist nkey accumulated
    where loop: "partition_loop sz ?bound 0 [] (next_key g) = Some r"
      and r: "r = (accumulated, klist, nkey)"
      and res: "\<not> known \<and> keys_of g' name = klist \<and> next_key g' = nkey"
    by (auto simp: IsTensorInitialized_def Let_def keys_of_def default_BPSContext_def
        split: if_splits option.splits)
  from partition_loop_trace[OF loop] r obtain n
    where "klist = issued (next_key g) n" and "nkey = next_key g + word_of_nat n" by auto
  with res have "(if known then [] else keys_of g' name) = issued (next_key g) n
            \<and> next_key g' = next_key g + word_of_nat n" by simp
  then show ?thesis by blast
qed

lemma register_all_issues:
  assumes "register_all alloc reqs g = Some (Inr (ks, g'))"
  shows "ks = issued (next_key g) (length ks) \<and> next_key g' = next_key g + word_of_nat (length ks)"
  using assms
proof (induction reqs arbitrary: g ks)
  case Nil
  then show ?case by simp
next
  case (Cons req reqs)
  obtain name sz device dtype where req: "req = (name, sz, device, dtype)" by (cases req) auto
  from Cons.prems req obtain known g1 ks1
    where first: "IsTensorInitialized alloc name sz device dtype g = Some (Inr (known, g1))"
      and rest: "register_all alloc reqs g1 = Some (Inr (ks1, g'))"
      and ks: "ks = (if known then [] else keys_of g1 name) @ ks1"
    by (auto split: option.splits sum.splits)
  from IsTensorInitialized_issues[OF first] obtain n
    where n: "(if known then [] else keys_of g1 name) = issued (next_key g) n"
      and k1: "next_key g1 = next_key g + word_of_nat n" by blast
  from Cons.IH[OF rest] have ih: "ks1 = issued (next_key g1) (length ks1)"
    and k': "next_key g' = next_key g1 + word_of_nat (length ks1)" by simp_all
  from ks n ih k1 have "ks = issued (next_key g) n @ issued (next_key g + word_of_nat n) (length ks1)"
    by simp
  then have eq: "ks = issued (next_key g) (n + length ks1)" by (simp only: issued_append)
  then have len: "length ks = n + length ks1" by (simp only: length_issued)
  from eq k' k1 show ?case by (simp only: len) (simp add: add.assoc)
qed

text \<open>
  Claim C2, as amended.  The keys a run of registrations issues are the values of the
  32-bit counter, one after the other from where it stood.  As long as the counter
  does not pass \<open>2 ^ 32\<close> in the run, the keys are strictly increasing in the order of
  issue, so each is distinct from and greater than all keys issued before it.
\<close>

theorem keys_increasing:
  assumes "register_all alloc reqs g = Some (Inr (ks, g'))"
  shows "ks = issued (next_key g) (length ks)
       \<and> next_key g' = next_key g + word_of_nat (length ks)
       \<and> (unat (next_key g) + length ks \<le> 2 ^ 32 \<longrightarrow> sorted_wrt (<) ks \<and> distinct ks)"
proof -
  note run = register_all_issues[OF assms]
  have "sorted_wrt (<) ks \<and> distinct ks" if "unat (next_key g) + length ks \<le> 2 ^ 32"
  proof -
    from issued_increasing[OF that] run have s: "sorted_wrt (<) ks" by simp
    then have "distinct ks" by (simp add: strict_sorted_iff)
    with s show ?thesis by simp
  qed
  with run show ?thesis by blast
qed

lemma registrations_grad:
  "register_all no_device_memory
      [(''grad0'', 1000000, CPU_DEVICE_ID, BYTEPS_FLOAT32),
       (''grad1'', 3000000, CPU_DEVICE_ID, BYTEPS_FLOAT32)] initial_global
   = Some (Inr ([0, 1, 2],
       \<lparr>initialized = False, partition_bound = 2048000, next_key = 3,
        name_to_cxt = fmupd ''grad1'' \<lparr>key_list = [1, 2], cpubuff = None, buff_len = 0\<rparr>
          (fmupd ''grad0'' \<lparr>key_list = [0], cpubuff = None, buff_len = 0\<rparr> fmempty),
        ps_kv = fmempty\<rparr>))"
  by (simp add: IsTensorInitialized_def initial_global_def ConvertBoundToBytes_def
      default_BPSContext_def partition_loop.simps keys_of_def)

theorem keys_increasing_witness:
  "register_all no_device_memory
      [(''grad0'', 1000000, CPU_DEVICE_ID, BYTEPS_FLOAT32),
       (''grad1'', 3000000, CPU_DEVICE_ID, BYTEPS_FLOAT32)] initial_global
   = Some (Inr ([0, 1, 2],
       \<lparr>initialized = False, partition_bound = 2048000, next_key = 3,
        name_to_cxt = fmupd ''grad1'' \<lparr>key_list = [1, 2], cpubuff = None, buff_len = 0\<rparr>
          (fmupd ''grad0'' \<lparr>key_list = [0], cpubuff = None, buff_len = 0\<rparr> fmempty),
        ps_kv = fmempty\<rparr>))
   \<and> unat (next_key initial_global) + length [0, 1, 2 :: ps_Key] \<le> 2 ^ 32
   \<and> sorted_wrt (<) [0, 1, 2 :: ps_Key] \<and> distinct [0, 1, 2 :: ps_Key]"
proof -
  have small: "unat (next_key initial_global) + length [0, 1, 2 :: ps_Key] \<le> 2 ^ 32"
    by (simp add: initial_global_def)
  from keys_increasing[OF registrations_grad] small
  have "sorted_wrt (<) [0, 1, 2 :: ps_Key] \<and> distinct [0, 1, 2 :: ps_Key]"
    by blast
  with registrations_grad small show ?thesis by blast
qed

lemma register_byte_chunks:
  assumes fresh: "fmlookup (name_to_cxt g) name = None" and one: "partition_bound g = 1"
  shows "IsTensorInitialized no_device_memory name 2147483647 CPU_DEVICE_ID BYTEPS_UINT8 g
       = Some (Inr (False,
           g\<lparr>partition_bound := 1, next_key := next_key g + 2147483647,
             name_to_cxt := fmupd name
               \<lparr>key_list = issued (next_key g) 2147483647, cpubuff = None, buff_len = 0\<rparr>
               (name_to_cxt g)\<rparr>))"
proof -
  have u: "unat (2147483647 :: size_t) = 2147483647" by simp
  have sz: "0 < unat (2147483647 :: size_t)" "unat (2147483647 :: size_t) < 2 ^ 31"
    by (simp_all only: u) simp_all
  have bnd: "(1 :: uint32_t) = (if next_key g = 0 then ConvertBoundToBytes BYTEPS_UINT8 (partition_bound g)
                       else partition_bound g)"
    by (simp add: one ConvertBoundToBytes_def)
  have pos: "0 < unat (1 :: uint32_t)" by simp
  have c: "chunks (unat (2147483647 :: size_t)) (unat (1 :: uint32_t)) = 2147483647"
    by (simp only: u) (simp add: chunks_def)
  from first_registration_small[OF fresh sz bnd pos, of CPU_DEVICE_ID no_device_memory]
  show ?thesis by (simp only: c) simp
qed

lemma Init_1: "Init (Some ''1'') initial_global = Inr byte_partitions"
  by (simp add: Init_def initial_global_def atoi_def strtol10_def isspace_def isdigit_def
      byte_partitions_def)

lemma three_registrations:
  "\<exists>g'. register_all no_device_memory large_tensors byte_partitions
   = Some (Inr (issued 0 2147483647 @ issued 2147483647 2147483647
                  @ issued 4294967294 2147483647, g'))"
  by (simp add: register_byte_chunks keys_of_def large_tensors_def byte_partitions_def)

text \<open>
  Claim C2 as stated fails: with one-byte partitions, three tensors of \<open>2 ^ 31 - 1\<close> bytes
  take 6442450941 keys; the \<open>unsigned int\<close> counter wraps to 0 after \<open>2 ^ 32\<close> of them,
  and key 0 is issued a second time.
\<close>

theorem key_counter_wraps:
  "Init (Some ''1'') initial_global = Inr byte_partitions
   \<and> run_returned (register_all no_device_memory large_tensors byte_partitions)
   \<and> length (run_keys (register_all no_device_memory large_tensors byte_partitions))
       = 6442450941
   \<and> run_keys (register_all no_device_memory large_tensors byte_partitions) ! 0 = 0
   \<and> run_keys (register_all no_device_memory large_tensors byte_partitions) ! 4294967296 = 0
   \<and> \<not> distinct (run_keys (register_all no_device_memory large_tensors byte_partitions))"
proof -
  let ?run = "register_all no_device_memory large_tensors byte_partitions"
  let ?ks = "issued 0 2147483647 @ issued 2147483647 2147483647 @ issued 4294967294 2147483647"
  from three_registrations obtain g' where run: "?run = Some (Inr (?ks, g'))" by blast
  then have ret: "run_returned ?run" and keys: "run_keys ?run = ?ks"
    by (simp_all add: run_returned_def run_keys_def)
  have len: "length ?ks = 6442450941" by simp
  from register_all_issues[OF run] have "?ks = issued (next_key byte_partitions) (length ?ks)"
    by (rule conjunct1)
  then have all: "?ks = issued 0 6442450941" by (simp only: len) (simp add: byte_partitions_def)
  have first: "?ks ! 0 = 0"
    by (simp only: all) (simp add: nth_issued)
  have again: "?ks ! 4294967296 = 0"
    by (simp only: all) (simp add: nth_issued)
  have "(0 :: nat) < length ?ks" and "(4294967296 :: nat) < length ?ks"
    and "(0 :: nat) \<noteq> 4294967296" by (simp_all only: len)
  with first again have "\<not> distinct ?ks"
    by (simp only: distinct_conv_nth) metis
  with Init_1 ret len first again show ?thesis by (simp only: keys) simp
qed


subsection \<open>Initialisation\<close>

lemma digits_foldl:
  "list_all isdigit s \<Longrightarrow> digits s v = foldl (\<lambda>v c. 10 * v + (of_char c - 48)) v s"
  by (induction s arbitrary: v) simp_all

lemma isdigit_not_space: "isdigit c \<Longrightarrow> \<not> isspace c \<and> c \<noteq> CHR ''-'' \<and> c \<noteq> CHR ''+''"
  by (auto simp: isdigit_def isspace_def)

lemma strtol10_decimal:
  assumes "decimal s"
  shows "strtol10 s = int (decimal_value s)"
proof -
  from assms obtain c cs where s: "s = c # cs" and c: "isdigit c" and all: "list_all isdigit s"
    by (cases s) (auto simp: decimal_def)
  from isdigit_not_space[OF c] s have "dropWhile isspace s = c # cs" by simp
  with isdigit_not_space[OF c] have "strtol10 s = int (digits (c # cs) 0)"
    by (simp add: strtol10_def)
  with digits_foldl[OF all, of 0] s show ?thesis
    by (simp only: decimal_value_def)
qed

lemma strtol10_no_number:
  assumes "no_number s"
  shows "strtol10 s = 0"
proof (cases "dropWhile isspace s")
  case Nil
  then show ?thesis by (simp only: strtol10_def) simp
next
  case (Cons c cs)
  with assms have "\<not> isdigit c" and "c \<noteq> CHR ''-''" and "c \<noteq> CHR ''+''"
    by (simp_all add: no_number_def)
  with Cons show ?thesis by (simp only: strtol10_def) simp
qed

text \<open>
  Claim C6, as amended.  \<open>Init\<close> on the initial state leaves the bound at 512000 when the
  override is absent, and sets it to the number the override writes when that is a
  decimal integer between 1 and \<open>2 ^ 31 - 1\<close>.  An override that is present but does not
  start with a number sets the bound to 0, the value of \<open>atoi\<close>, not to the default.
\<close>

theorem Init_partition_bound:
  assumes "decimal s" and "0 < decimal_value s" and "decimal_value s < 2 ^ 31"
    and "no_number t"
  shows "bound_after (Init None initial_global) = Some 512000
       \<and> bound_after (Init (Some s) initial_global) = Some (word_of_nat (decimal_value s))
       \<and> unat (word_of_nat (decimal_value s) :: uint32_t) = decimal_value s
       \<and> bound_after (Init (Some t) initial_global) = Some 0"
proof -
  have none: "bound_after (Init None initial_global) = Some 512000"
    by (simp add: Init_def initial_global_def bound_after_def)
  have v: "strtol10 s = int (decimal_value s)" by (rule strtol10_decimal[OF assms(1)])
  have "int (decimal_value s) < 2 ^ 31"
    using assms(3) by (simp only: of_nat_less_numeral_power_cancel_iff)
  moreover have "- (2 ^ 31) \<le> int (decimal_value s)"
    by (rule order_trans[of _ 0]) simp_all
  ultimately have "atoi s = Inr (word_of_nat (decimal_value s))"
    by (simp only: atoi_def v) simp
  then have valid: "bound_after (Init (Some s) initial_global) = Some (word_of_nat (decimal_value s))"
    by (simp add: Init_def initial_global_def bound_after_def)
  have "(2::nat) ^ 31 < 2 ^ 32" by simp
  with assms(3) have "decimal_value s < 2 ^ 32" by (rule less_trans)
  then have same: "unat (word_of_nat (decimal_value s) :: uint32_t) = decimal_value s"
    by (simp add: unat_of_nat)
  from strtol10_no_number[OF assms(4)] have "atoi t = Inr 0"
    by (simp add: atoi_def)
  then have invalid: "bound_after (Init (Some t) initial_global) = Some 0"
    by (simp add: Init_def initial_global_def bound_after_def)
  from none valid same invalid show ?thesis by simp
qed

lemma decimal_1024: "decimal ''1024'' \<and> decimal_value ''1024'' = 1024"
  by (simp add: decimal_def decimal_value_def isdigit_def)

lemma no_number_abc: "no_number ''abc''"
  by (simp add: no_number_def isspace_def isdigit_def)

theorem Init_partition_bound_witness:
  "decimal ''1024'' \<and> 0 < decimal_value ''1024'' \<and> decimal_value ''1024'' < 2 ^ 31
   \<and> no_number ''abc''
   \<and> bound_after (Init None initial_global) = Some 512000
   \<and> bound_after (Init (Some ''1024'') initial_global) = Some 1024
   \<and> bound_after (Init (Some ''abc'') initial_global) = Some 0"
proof -
  have a: "decimal ''1024''" and b: "0 < decimal_value ''1024''"
    and c: "decimal_value ''1024'' < 2 ^ 31"
    using decimal_1024 by simp_all
  from Init_partition_bound[OF a b c no_number_abc] a b c no_number_abc
  show ?thesis by (simp add: decimal_1024)
qed

text \<open>
  Claim C6 as stated fails: the invalid overrides \<open>abc\<close>, \<open>-5\<close> and \<open>12abc\<close> change the
  bound to 0, to \<open>2 ^ 32 - 5\<close> and to 12.
\<close>

theorem Init_invalid_override:
  "bound_after (Init (Some ''abc'') initial_global) = Some 0
   \<and> bound_after (Init (Some ''-5'') initial_global) = Some 4294967291
   \<and> bound_after (Init (Some ''12abc'') initial_global) = Some 12"
  by (simp add: bound_after_def Init_def initial_global_def atoi_def strtol10_def
      isspace_def isdigit_def)

subsection \<open>Key encoding\<close>

lemma EncodeDefaultKey_known:
  assumes "fmlookup (ps_kv g) key = Some pskv" and "keys pskv \<noteq> []"
  shows "EncodeDefaultKey krs key len g
       = (if (scast (size pskv) :: size_t) = len then Inr (pskv, g) else Inl CheckFailed)"
  using assms by (simp add: EncodeDefaultKey_def)

lemma sint_times_9973:
  fixes key :: c_int
  assumes "- (2 ^ 31) \<le> sint key * 9973" and "sint key * 9973 < 2 ^ 31"
  shows "sint (key * 9973) = sint key * 9973"
proof -
  have "sint (9973 :: c_int) = 9973" by simp
  then have "sint (key * 9973) = signed_take_bit 31 (sint key * 9973)"
    by (simp add: sint_word_mult)
  also from assms have "\<dots> = sint key * 9973"
    by (simp only: signed_take_bit_int_eq_self)
  finally show ?thesis .
qed

lemma num_servers_le:
  assumes "0 < num_servers krs"
  shows "num_servers krs \<le> int (length krs)"
proof -
  let ?w = "word_of_nat (length krs) :: c_int"
  have "- (2 ^ 31) \<le> uint ?w" by (rule order_trans[OF _ uint_nonnegative]) simp
  then have "signed_take_bit 31 (uint ?w) \<le> uint ?w"
    by (simp only: signed_take_bit_int_less_eq_self_iff)
  then have "sint ?w \<le> uint ?w" by (simp add: sint_uint)
  also have "uint ?w = int (unat ?w)" by simp
  also have "unat ?w = length krs mod 2 ^ 32" by (simp add: unat_of_nat)
  also have "int (length krs mod 2 ^ 32) \<le> int (length krs)" by simp
  finally show ?thesis by (simp only: num_servers_def)
qed

lemma c_rem_nonneg:
  assumes "0 \<le> p" and "0 < n"
  shows "c_rem p n = p mod n"
  using assms by (cases "p = 0") (simp_all add: c_rem_def)

text \<open>
  Where the claim of C3 holds: a key that is not negative and whose product with 9973
  fits an \<open>int\<close>, keys 0 to 215329.  For a new key the call goes to the server the
  spec names; it returns that server's range start plus the key when that lies below
  the range end, and is fatal otherwise.
\<close>

lemma EncodeDefaultKey_in_range:
  assumes fresh: "fmlookup (ps_kv g) key = None"
    and nonneg: "0 \<le> sint key" and fits: "sint key * 9973 < 2 ^ 31"
    and n: "0 < num_servers krs"
  shows "server_of krs key < length krs"
    and "EncodeDefaultKey krs key len g
       = (if fst (krs ! server_of krs key) + scast key < snd (krs ! server_of krs key)
          then Inr (\<lparr>keys = [fst (krs ! server_of krs key) + scast key], lens = [ucast len],
                      size = ucast len\<rparr>,
                    g\<lparr>ps_kv := fmupd key
                      \<lparr>keys = [fst (krs ! server_of krs key) + scast key], lens = [ucast len],
                        size = ucast len\<rparr> (ps_kv g)\<rparr>)
          else Inl CheckFailed)"
proof -
  let ?p = "sint key * 9973"
  from nonneg have p0: "0 \<le> ?p" by simp
  then have "- (2 ^ 31) \<le> ?p" by (rule order_trans[rotated]) simp
  then have prod: "sint (key * 9973) = ?p" using fits by (rule sint_times_9973)
  have r: "c_rem (sint (key * 9973)) (num_servers krs) = ?p mod num_servers krs"
    by (simp only: prod c_rem_nonneg[OF p0 n])
  have r0: "0 \<le> ?p mod num_servers krs" using n by simp
  have "?p mod num_servers krs < num_servers krs" using n by simp
  with num_servers_le[OF n] have "?p mod num_servers krs < int (length krs)" by simp
  with r0 show idx: "server_of krs key < length krs" by (simp add: server_of_def)
  from r0 have neg: "\<not> ?p mod num_servers krs < 0" by simp
  from idx have oob: "\<not> length krs \<le> nat (?p mod num_servers krs)"
    by (simp add: server_of_def)
  show "EncodeDefaultKey krs key len g
       = (if fst (krs ! server_of krs key) + scast key < snd (krs ! server_of krs key)
          then Inr (\<lparr>keys = [fst (krs ! server_of krs key) + scast key], lens = [ucast len],
                      size = ucast len\<rparr>,
                    g\<lparr>ps_kv := fmupd key
                      \<lparr>keys = [fst (krs ! server_of krs key) + scast key], lens = [ucast len],
                        size = ucast len\<rparr> (ps_kv g)\<rparr>)
          else Inl CheckFailed)"
    using fresh n neg oob
    by (simp add: EncodeDefaultKey_def Let_def default_PSKV_def r server_of_def)
qed

text \<open>
  A later call for a key that has been encoded compares the length with the stored
  \<open>int\<close>: it returns the stored assignment, and changes nothing, exactly when the
  length is the stored one sign-extended, which a length below \<open>2 ^ 31\<close> is.
\<close>

lemma EncodeDefaultKey_again:
  assumes ret: "EncodeDefaultKey krs key len g = Inr (pskv, g')"
    and fresh: "fmlookup (ps_kv g) key = None"
  shows "EncodeDefaultKey krs' key len' g'
       = (if (scast (ucast len :: c_int) :: size_t) = len' then Inr (pskv, g')
          else Inl CheckFailed)"
proof -
  from fresh ret have "keys pskv \<noteq> [] \<and> size pskv = ucast len
      \<and> fmlookup (ps_kv g') key = Some pskv"
    by (auto simp: EncodeDefaultKey_def Let_def default_PSKV_def split: if_splits)
  then show ?thesis by (simp add: EncodeDefaultKey_known)
qed

lemma EncodeDefaultKey_again_same:
  assumes ret: "EncodeDefaultKey krs key len g = Inr (pskv, g')"
    and fresh: "fmlookup (ps_kv g) key = None"
    and len: "unat len < 2 ^ 31"
  shows "EncodeDefaultKey krs' key len g' = Inr (pskv, g')"
  using scast_ucast_small[OF len] by (simp add: EncodeDefaultKey_again[OF ret fresh])

text \<open>
  Claim C3 at key 500000 with three servers, and at a length of 3000000000 bytes.  The
  claim asks for server \<open>(500000 * 9973) mod 3 = 2\<close> and the wire key 12297829382473534410.
  The \<open>int\<close> product overflows: its 32 bits are 691532704, whose remainder is 1, and the
  call returns the wire key 6148914691237017205 in the range of server 1.  For key 7
  with 3000000000 bytes the first call stores the length in an \<open>int\<close>, as - 1294967296,
  and the second call with the same key and the same length is fatal instead of
  returning the same assignment.
\<close>

theorem EncodeDefaultKey_overflow:
  "EncodeDefaultKey three_servers 500000 8 initial_global
     = Inr (\<lparr>keys = [6148914691237017205], lens = [8], size = 8\<rparr>,
            initial_global\<lparr>ps_kv :=
              fmupd 500000 \<lparr>keys = [6148914691237017205], lens = [8], size = 8\<rparr> fmempty\<rparr>)
   \<and> sint (500000 * 9973 :: c_int) = 691532704
   \<and> fst (three_servers ! 1) + 500000 = 6148914691237017205
   \<and> server_of three_servers 500000 = 2
   \<and> fst (three_servers ! 2) + 500000 = 12297829382473534410
   \<and> EncodeDefaultKey three_servers 7 3000000000 initial_global
     = Inr (\<lparr>keys = [6148914691236517212], lens = [3000000000], size = 3000000000\<rparr>,
            initial_global\<lparr>ps_kv :=
              fmupd 7 \<lparr>keys = [6148914691236517212], lens = [3000000000], size = 3000000000\<rparr>
                fmempty\<rparr>)
   \<and> sint (3000000000 :: c_int) = - 1294967296
   \<and> EncodeDefaultKey three_servers 7 3000000000
        (initial_global\<lparr>ps_kv :=
              fmupd 7 \<lparr>keys = [6148914691236517212], lens = [3000000000], size = 3000000000\<rparr>
                fmempty\<rparr>)
     = Inl CheckFailed"
  by (simp add: EncodeDefaultKey_def initial_global_def default_PSKV_def num_servers_def
      server_of_def c_rem_def three_servers_def Let_def)

end
